theory Spec2Isabelle
  imports Main "HOL-Library.Word" "HOL-Library.Multiset" "HOL-Library.AList"
    "HOL-Library.Monad_Syntax"
begin

unbundle bit_operations_syntax

section \<open>Jobs\<close>

text \<open>
  A Go \<open>time.Time\<close> is modelled by the instant it denotes, as a number of nanoseconds
  relative to the Unix epoch. \<open>Before\<close> and \<open>Equal\<close> compare instants, so they are
  \<open><\<close> and \<open>=\<close>. The zero value of \<open>time.Time\<close> is 1 January of year 1, 00:00:00 UTC,
  which lies 62135596800 seconds before the epoch.
\<close>

type_synonym gotime = int
type_synonym byte = "8 word"

definition zeroTime :: gotime where
  "zeroTime = - 62135596800 * 1000000000"

definition IsZero :: "gotime \<Rightarrow> bool" where
  "IsZero t = (t = zeroTime)"

datatype JobStatus = JobStatusReady | JobStatusInflight | JobStatusDLQ

text \<open>
  A Go \<open>map[string]string\<close> is an association list with distinct keys, in the order in
  which \<open>range\<close> yields its entries; storing under a key is \<open>AList.update\<close> and the
  \<open>nil\<close> map and the empty map are both \<open>[]\<close>. Go strings are byte sequences, as
  Isabelle's \<open>string\<close> is.
\<close>

record Job =
  ID :: string
  Queue :: string
  Payload :: "byte list"
  Headers :: "(string \<times> string) list"
  Priority :: "8 word"
  Tries :: "32 word"
  MaxRetries :: "32 word"
  ETA :: gotime
  LeaseID :: string
  LeaseDeadline :: gotime
  Status :: JobStatus
  EnqueuedAt :: gotime

definition IsReady :: "Job \<Rightarrow> gotime \<Rightarrow> bool" where
  "IsReady j now = (Status j = JobStatusReady \<and> (IsZero (ETA j) \<or> ETA j < now \<or> ETA j = now))"

definition ShouldRetry :: "Job \<Rightarrow> bool" where
  "ShouldRetry j = (Tries j < MaxRetries j)"

section \<open>The job heap\<close>

record jobHeapItem =
  job :: Job
  index :: int

type_synonym jobHeap = "jobHeapItem list"

text \<open>\<open>jobHeap.Less\<close>: priority descending, then ETA ascending, then enqueue time ascending.\<close>

definition job_less :: "Job \<Rightarrow> Job \<Rightarrow> bool" where
  "job_less a b =
     (if Priority a \<noteq> Priority b then Priority a > Priority b
      else if \<not> (ETA a = ETA b) then ETA a < ETA b
      else EnqueuedAt a < EnqueuedAt b)"

definition Less :: "jobHeap \<Rightarrow> nat \<Rightarrow> nat \<Rightarrow> bool" where
  "Less h i j = job_less (job (h ! i)) (job (h ! j))"

text \<open>\<open>jobHeap.Swap\<close> exchanges two entries and rewrites their \<open>index\<close> fields.\<close>

definition Swap :: "jobHeap \<Rightarrow> nat \<Rightarrow> nat \<Rightarrow> jobHeap" where
  "Swap h i j =
     (let h1 = h[i := h ! j, j := h ! i];
          h2 = h1[i := (h1 ! i)\<lparr>index := int i\<rparr>]
      in h2[j := (h2 ! j)\<lparr>index := int j\<rparr>])"

text \<open>
  The sift loops of Go's \<open>container/heap\<close>, which \<open>priorityQueue\<close> drives through
  \<open>heap.Push\<close>, \<open>heap.Pop\<close> and \<open>heap.Remove\<close>. In \<open>up\<close> the parent of \<open>j\<close> is
  \<open>(j - 1) / 2\<close>; for \<open>j = 0\<close> Go's division truncates \<open>-1 / 2\<close> to \<open>0\<close>, which is
  also what the subtraction on \<open>nat\<close> gives, so the loop stops at the root.
\<close>

function up :: "jobHeap \<Rightarrow> nat \<Rightarrow> jobHeap" where
  "up h j =
     (let i = (j - 1) div 2
      in if i = j \<or> \<not> Less h j i then h else up (Swap h i j) i)"
  by pat_completeness auto
termination
  by (relation "measure (\<lambda>(h, j). j)") auto

function down_loop :: "jobHeap \<Rightarrow> nat \<Rightarrow> nat \<Rightarrow> jobHeap \<times> nat" where
  "down_loop h i n =
     (let j1 = 2 * i + 1
      in if j1 \<ge> n then (h, i)
         else let j = (if j1 + 1 < n \<and> Less h (j1 + 1) j1 then j1 + 1 else j1)
              in if \<not> Less h j i then (h, i) else down_loop (Swap h i j) j n)"
  by pat_completeness auto
termination
  by (relation "measure (\<lambda>(h, i, n). n - i)") (auto split: if_splits)

definition down :: "jobHeap \<Rightarrow> nat \<Rightarrow> nat \<Rightarrow> jobHeap \<times> bool" where
  "down h i0 n = (case down_loop h i0 n of (h', i) \<Rightarrow> (h', i > i0))"

text \<open>\<open>jobHeap.Push\<close> appends the item with \<open>index = len\<close>; \<open>heap.Push\<close> then sifts it up.\<close>

definition heap_Push :: "jobHeap \<Rightarrow> jobHeapItem \<Rightarrow> jobHeap" where
  "heap_Push h x = up (h @ [x\<lparr>index := int (length h)\<rparr>]) (length h)"

text \<open>
  \<open>jobHeap.Pop\<close> detaches the last entry and marks it with \<open>index = -1\<close>. \<open>heap.Pop\<close> and
  \<open>heap.Remove\<close> index the slice and panic when it is out of range; the panic is \<open>None\<close>.
\<close>

definition jobHeap_Pop :: "jobHeap \<Rightarrow> jobHeapItem \<times> jobHeap" where
  "jobHeap_Pop h = ((last h)\<lparr>index := - 1\<rparr>, butlast h)"

definition heap_Pop :: "jobHeap \<Rightarrow> (jobHeapItem \<times> jobHeap) option" where
  "heap_Pop h =
     (if h = [] then None
      else let n = length h - 1;
               h1 = Swap h 0 n;
               h2 = fst (down h1 0 n)
           in Some (jobHeap_Pop h2))"

definition heap_Remove :: "jobHeap \<Rightarrow> int \<Rightarrow> (jobHeapItem \<times> jobHeap) option" where
  "heap_Remove h i =
     (if i < 0 \<or> i \<ge> int (length h) then None
      else let n = length h - 1;
               h1 = (if n \<noteq> nat i
                     then (let hs = Swap h (nat i) n;
                               (h3, moved) = down hs (nat i) n
                           in if \<not> moved then up h3 (nat i) else h3)
                     else h)
           in Some (jobHeap_Pop h1))"

section \<open>The ready structure\<close>

text \<open>
  \<open>priorityQueue.items\<close> maps a job id to the pointer of the heap entry pushed under that
  id. The model keeps the key set of that map; following the pointer is finding the entry
  of \<open>heap\<close> that carries the id (\<open>item_of\<close>). The registered ids are shown below
  to be exactly the ids in the heap, each once, so the entry of a registered id exists and
  is the one that was pushed under it.
\<close>

record priorityQueue =
  heap :: jobHeap
  items :: "string set"

definition newPriorityQueue :: priorityQueue where
  "newPriorityQueue = \<lparr>heap = [], items = {}\<rparr>"

definition item_of :: "jobHeap \<Rightarrow> string \<Rightarrow> jobHeapItem option" where
  "item_of h jobID = find (\<lambda>it. ID (job it) = jobID) h"

definition Push :: "priorityQueue \<Rightarrow> Job \<Rightarrow> priorityQueue" where
  "Push pq j =
     (if ID j \<in> items pq then pq
      else pq\<lparr>items := insert (ID j) (items pq),
              heap := heap_Push (heap pq) \<lparr>job = j, index = 0\<rparr>\<rparr>)"

definition Len :: "priorityQueue \<Rightarrow> nat" where
  "Len pq = length (heap pq)"

definition Pop :: "priorityQueue \<Rightarrow> Job option \<times> priorityQueue" where
  "Pop pq =
     (if Len pq = 0 then (None, pq)
      else case heap_Pop (heap pq) of
             None \<Rightarrow> (None, pq)
           | Some (item, h') \<Rightarrow>
               (Some (job item), pq\<lparr>heap := h', items := items pq - {ID (job item)}\<rparr>))"

definition Peek :: "priorityQueue \<Rightarrow> Job option" where
  "Peek pq = (if Len pq = 0 then None else Some (job (heap pq ! 0)))"

definition Remove :: "priorityQueue \<Rightarrow> string \<Rightarrow> Job option \<times> priorityQueue" where
  "Remove pq jobID =
     (if jobID \<notin> items pq then (None, pq)
      else case item_of (heap pq) jobID of
             None \<Rightarrow> (None, pq)
           | Some item \<Rightarrow>
               (case heap_Remove (heap pq) (index item) of
                  None \<Rightarrow> (None, pq)
                | Some (removed, h') \<Rightarrow>
                    (Some (job item), pq\<lparr>heap := h', items := items pq - {jobID}\<rparr>)))"

definition PeekReady :: "priorityQueue \<Rightarrow> gotime \<Rightarrow> Job option" where
  "PeekReady pq now =
     (if Len pq = 0 then None
      else let j = job (heap pq ! 0) in if IsReady j now then Some j else None)"

definition PopReady :: "priorityQueue \<Rightarrow> gotime \<Rightarrow> Job option \<times> priorityQueue" where
  "PopReady pq now =
     (if Len pq = 0 then (None, pq)
      else let j = job (heap pq ! 0) in if \<not> IsReady j now then (None, pq) else Pop pq)"

section \<open>Invariants of the heap\<close>

definition idx_ok :: "jobHeap \<Rightarrow> bool" where
  "idx_ok h = (\<forall>i < length h. index (h ! i) = int i)"

definition heap_jobs :: "jobHeap \<Rightarrow> Job multiset" where
  "heap_jobs h = mset (map job h)"

definition ids :: "jobHeap \<Rightarrow> string list" where
  "ids h = map (\<lambda>it. ID (job it)) h"

definition pq_inv :: "priorityQueue \<Rightarrow> bool" where
  "pq_inv pq = (distinct (ids (heap pq)) \<and> items pq = set (ids (heap pq)) \<and> idx_ok (heap pq))"

text \<open>Runs of operations on a ready structure, starting from \<open>newPriorityQueue\<close>.\<close>

datatype pq_op = OpPush Job | OpPop | OpPopReady gotime | OpRemove string

fun apply_op :: "priorityQueue \<Rightarrow> pq_op \<Rightarrow> priorityQueue" where
  "apply_op pq (OpPush j) = Push pq j"
| "apply_op pq OpPop = snd (Pop pq)"
| "apply_op pq (OpPopReady now) = snd (PopReady pq now)"
| "apply_op pq (OpRemove jobID) = snd (Remove pq jobID)"

definition run_ops :: "pq_op list \<Rightarrow> priorityQueue" where
  "run_ops ops = foldl apply_op newPriorityQueue ops"

definition sample_job :: "string \<Rightarrow> 8 word \<Rightarrow> gotime \<Rightarrow> gotime \<Rightarrow> Job" where
  "sample_job jid p eta enq =
     \<lparr>ID = jid, Queue = ''q'', Payload = [], Headers = [], Priority = p, Tries = 0,
      MaxRetries = 3, ETA = eta, LeaseID = [], LeaseDeadline = zeroTime,
      Status = JobStatusReady, EnqueuedAt = enq\<rparr>"

section \<open>WAL records and their byte layout\<close>

datatype error =
    EOF
  | ErrUnexpectedEOF
  | ErrInvalidRecord
  | ErrCorruptedData
  | Errorf string
  | Wrapped string error

type_synonym RecordType = "8 word"

definition RecordTypeEnqueue :: RecordType where "RecordTypeEnqueue = 1"
definition RecordTypeAck :: RecordType where "RecordTypeAck = 2"
definition RecordTypeNack :: RecordType where "RecordTypeNack = 3"
definition RecordTypeRequeue :: RecordType where "RecordTypeRequeue = 4"
definition RecordTypeTombstone :: RecordType where "RecordTypeTombstone = 5"

text \<open>The struct \<open>wal.Record\<close>; its fields carry the prefix \<open>r\<close> to keep them apart from
  those of \<open>Job\<close>.\<close>

record Record =
  rType :: RecordType
  rQueue :: string
  rJobID :: string
  rPayload :: "byte list"
  rHeaders :: "(string \<times> string) list"
  rPriority :: "8 word"
  rTries :: "32 word"
  rMaxRetries :: "32 word"
  rETA :: gotime
  rLeaseID :: string
  rReason :: string

text \<open>
  \<open>binary.LittleEndian\<close>: \<open>le_bytes k n\<close> are the \<open>k\<close> low bytes of \<open>n\<close>, least
  significant first, and \<open>le_val\<close> reads such bytes back.
\<close>

fun le_bytes :: "nat \<Rightarrow> nat \<Rightarrow> byte list" where
  "le_bytes 0 n = []"
| "le_bytes (Suc k) n = word_of_nat (n mod 256) # le_bytes k (n div 256)"

fun le_val :: "byte list \<Rightarrow> nat" where
  "le_val [] = 0"
| "le_val (b # bs) = unat b + 256 * le_val bs"

definition PutUint16 :: "16 word \<Rightarrow> byte list" where
  "PutUint16 v = le_bytes 2 (unat v)"

definition PutUint32 :: "32 word \<Rightarrow> byte list" where
  "PutUint32 v = le_bytes 4 (unat v)"

definition PutUint64 :: "64 word \<Rightarrow> byte list" where
  "PutUint64 v = le_bytes 8 (unat v)"

definition Uint16 :: "byte list \<Rightarrow> 16 word" where
  "Uint16 b = word_of_nat (le_val (take 2 b))"

definition Uint32 :: "byte list \<Rightarrow> 32 word" where
  "Uint32 b = word_of_nat (le_val (take 4 b))"

definition Uint64 :: "byte list \<Rightarrow> 64 word" where
  "Uint64 b = word_of_nat (le_val (take 8 b))"

definition bytes_of :: "string \<Rightarrow> byte list" where
  "bytes_of s = map (\<lambda>c. word_of_nat (of_char c)) s"

definition string_of :: "byte list \<Rightarrow> string" where
  "string_of bs = map (\<lambda>b. char_of (unat b)) bs"

text \<open>
  \<open>Time.UnixMilli\<close> is the number of whole milliseconds since the epoch, as an
  \<open>int64\<close>; \<open>time.UnixMilli\<close> is the instant that many milliseconds after the epoch.
\<close>

definition UnixMilli :: "gotime \<Rightarrow> 64 word" where
  "UnixMilli t = word_of_int (t div 1000000)"

definition time_UnixMilli :: "64 word \<Rightarrow> gotime" where
  "time_UnixMilli ms = sint ms * 1000000"

text \<open>
  \<open>Record.Marshal\<close>. The buffer is allocated with exactly the size of the fields written,
  so the result is the concatenation of the fields. Each length is cast to the width of
  its prefix (\<open>uint16(len(s))\<close>), while \<open>copy\<close> writes the whole field.
\<close>

definition put_str16 :: "string \<Rightarrow> byte list" where
  "put_str16 s = PutUint16 (word_of_nat (length s)) @ bytes_of s"

definition put_headers :: "(string \<times> string) list \<Rightarrow> byte list" where
  "put_headers hs = concat (map (\<lambda>(k, v). put_str16 k @ put_str16 v) hs)"

definition Marshal :: "Record \<Rightarrow> byte list" where
  "Marshal r =
     [rType r]
     @ put_str16 (rQueue r)
     @ put_str16 (rJobID r)
     @ [rPriority r]
     @ PutUint32 (rTries r)
     @ PutUint32 (rMaxRetries r)
     @ PutUint64 (UnixMilli (rETA r))
     @ PutUint32 (word_of_nat (length (rPayload r))) @ rPayload r
     @ PutUint16 (word_of_nat (length (rHeaders r))) @ put_headers (rHeaders r)
     @ put_str16 (rLeaseID r)
     @ put_str16 (rReason r)"

text \<open>
  \<open>Record.Unmarshal\<close> walks \<open>data\<close> with an offset. The readers below work on the
  bytes from the offset on, \<open>data[offset:]\<close>: the test \<open>offset + n > len(data)\<close> is
  \<open>n > length bs\<close>, and advancing the offset drops the bytes read. \<open>None\<close> is the
  return of \<open>ErrInvalidRecord\<close>.
\<close>

type_synonym 'a reader = "byte list \<Rightarrow> ('a \<times> byte list) option"

definition read_bytes :: "nat \<Rightarrow> (byte list) reader" where
  "read_bytes n bs = (if n > length bs then None else Some (take n bs, drop n bs))"

definition read_u8 :: "(8 word) reader" where
  "read_u8 bs = (if 1 > length bs then None else Some (hd bs, tl bs))"

definition read_u16 :: "(16 word) reader" where
  "read_u16 bs = (if 2 > length bs then None else Some (Uint16 bs, drop 2 bs))"

definition read_u32 :: "(32 word) reader" where
  "read_u32 bs = (if 4 > length bs then None else Some (Uint32 bs, drop 4 bs))"

definition read_u64 :: "(64 word) reader" where
  "read_u64 bs = (if 8 > length bs then None else Some (Uint64 bs, drop 8 bs))"

definition read_str16 :: "string reader" where
  "read_str16 bs =
     do { (n, r1) \<leftarrow> read_u16 bs;
          (s, r2) \<leftarrow> read_bytes (unat n) r1;
          Some (string_of s, r2) }"

definition read_payload :: "(byte list) reader" where
  "read_payload bs =
     do { (n, r1) \<leftarrow> read_u32 bs;
          read_bytes (unat n) r1 }"

fun read_headers :: "nat \<Rightarrow> (string \<times> string) list \<Rightarrow> ((string \<times> string) list) reader" where
  "read_headers 0 m bs = Some (m, bs)"
| "read_headers (Suc n) m bs =
     do { (k, r1) \<leftarrow> read_str16 bs;
          (v, r2) \<leftarrow> read_str16 r1;
          read_headers n (AList.update k v m) r2 }"

definition Unmarshal_rest :: "Record reader" where
  "Unmarshal_rest data =
     do { (ty, r0) \<leftarrow> read_u8 data;
          (queue, r1) \<leftarrow> read_str16 r0;
          (jobID, r2) \<leftarrow> read_str16 r1;
          (priority, r3) \<leftarrow> read_u8 r2;
          (tries, r4) \<leftarrow> read_u32 r3;
          (maxRetries, r5) \<leftarrow> read_u32 r4;
          (etaMs, r6) \<leftarrow> read_u64 r5;
          (payload, r7) \<leftarrow> read_payload r6;
          (headersCount, r8) \<leftarrow> read_u16 r7;
          (headers, r9) \<leftarrow> read_headers (unat headersCount) [] r8;
          (leaseID, r10) \<leftarrow> read_str16 r9;
          (reason, r11) \<leftarrow> read_str16 r10;
          Some (\<lparr>rType = ty, rQueue = queue, rJobID = jobID, rPayload = payload,
                  rHeaders = headers, rPriority = priority, rTries = tries,
                  rMaxRetries = maxRetries, rETA = time_UnixMilli etaMs,
                  rLeaseID = leaseID, rReason = reason\<rparr>, r11) }"

definition Unmarshal :: "byte list \<Rightarrow> error + Record" where
  "Unmarshal data =
     (case Unmarshal_rest data of None \<Rightarrow> Inl ErrInvalidRecord | Some (r, rest) \<Rightarrow> Inr r)"

text \<open>
  The records whose fields fit the width of their length prefixes: strings below
  \<open>2^16\<close> bytes, at most \<open>2^16 - 1\<close> headers with distinct keys (as in any Go map),
  a payload below \<open>2^32\<close> bytes. \<open>eta_fits\<close>: the scheduled time is a whole number
  of milliseconds that an \<open>int64\<close> holds.
\<close>

definition headers_ok :: "(string \<times> string) list \<Rightarrow> bool" where
  "headers_ok hs = (distinct (map fst hs) \<and> length hs < 65536
      \<and> (\<forall>(k, v) \<in> set hs. length k < 65536 \<and> length v < 65536))"

definition fields_fit :: "Record \<Rightarrow> bool" where
  "fields_fit r =
     (length (rQueue r) < 65536 \<and> length (rJobID r) < 65536
      \<and> length (rLeaseID r) < 65536 \<and> length (rReason r) < 65536
      \<and> length (rPayload r) < 4294967296 \<and> headers_ok (rHeaders r))"

definition eta_fits :: "gotime \<Rightarrow> bool" where
  "eta_fits t =
     (t mod 1000000 = 0 \<and> - (2 ^ 63) \<le> t div 1000000 \<and> t div 1000000 < 2 ^ 63)"

definition sample_record :: "RecordType \<Rightarrow> string \<Rightarrow> string \<Rightarrow> gotime \<Rightarrow> Record" where
  "sample_record ty q jid eta =
     \<lparr>rType = ty, rQueue = q, rJobID = jid, rPayload = [1, 2, 3],
      rHeaders = [(''k'', ''v'')], rPriority = 5, rTries = 0, rMaxRetries = 3, rETA = eta,
      rLeaseID = [], rReason = []\<rparr>"

text \<open>
  A reader is safe against truncation when every successful read consumes a prefix \<open>c\<close>
  of its input, gives the same value whatever follows \<open>c\<close>, and fails on every proper
  prefix of \<open>c\<close>.
\<close>

definition trunc_safe :: "'a reader \<Rightarrow> bool" where
  "trunc_safe p =
     (\<forall>bs v rest. p bs = Some (v, rest) \<longrightarrow>
        (\<exists>c. bs = c @ rest \<and> (\<forall>ys. p (c @ ys) = Some (v, ys))
             \<and> (\<forall>n < length c. p (take n c) = None)))"

text \<open>The 31 bytes that follow the type byte in the encoding of a record with empty fields.\<close>

definition blank_body :: "byte list" where
  "blank_body =
     [0, 0,  0, 0,  0,  0, 0, 0, 0,  0, 0, 0, 0,  0, 0, 0, 0, 0, 0, 0, 0,
      0, 0, 0, 0,  0, 0,  0, 0,  0, 0]"

definition blank_record :: "RecordType \<Rightarrow> Record" where
  "blank_record ty =
     \<lparr>rType = ty, rQueue = [], rJobID = [], rPayload = [], rHeaders = [], rPriority = 0,
      rTries = 0, rMaxRetries = 0, rETA = 0, rLeaseID = [], rReason = []\<rparr>"

section \<open>Segments and replay\<close>

text \<open>
  A segment file is its byte content. \<open>util.Checksum\<close> is CRC-32C from Go's
  \<open>hash/crc32\<close>; the functions below take it as the parameter \<open>crc\<close>.
  \<open>Segment.Write\<close> appends the frame \<open>[length:4][crc32:4][data]\<close> of a record.
\<close>

type_synonym checksum = "byte list \<Rightarrow> 32 word"




definition VerifyChecksum :: "checksum \<Rightarrow> byte list \<Rightarrow> 32 word \<Rightarrow> bool" where
  "VerifyChecksum crc data expected = (crc data = expected)"

definition frame :: "checksum \<Rightarrow> Record \<Rightarrow> byte list" where
  "frame crc r =
     (let data = Marshal r
      in PutUint32 (word_of_nat (length data)) @ PutUint32 (crc data) @ data)"

definition Segment_Write :: "checksum \<Rightarrow> byte list \<Rightarrow> Record \<Rightarrow> byte list" where
  "Segment_Write crc seg r = seg @ frame crc r"

text \<open>
  \<open>io.ReadFull\<close> on the bytes still unread: it fills a buffer of \<open>n\<close> bytes, reports
  \<open>io.EOF\<close> when nothing is left and \<open>io.ErrUnexpectedEOF\<close> when the stream ends
  inside the buffer.
\<close>

definition ReadFull :: "nat \<Rightarrow> byte list \<Rightarrow> error + (byte list \<times> byte list)" where
  "ReadFull n s =
     (if n \<le> length s then Inr (take n s, drop n s)
      else if s = [] then Inl EOF
      else Inl ErrUnexpectedEOF)"

text \<open>\<open>SegmentReader.Read\<close>: the next record and the bytes left, or the error.\<close>

definition Read :: "checksum \<Rightarrow> byte list \<Rightarrow> error + (Record \<times> byte list)" where
  "Read crc s =
     (case ReadFull 4 s of
        Inl err \<Rightarrow> if err = EOF then Inl EOF else Inl (Wrapped ''failed to read length'' err)
      | Inr (lenBuf, s1) \<Rightarrow>
          (case ReadFull 4 s1 of
             Inl err \<Rightarrow> Inl (Wrapped ''failed to read checksum'' err)
           | Inr (crcBuf, s2) \<Rightarrow>
               (case ReadFull (unat (Uint32 lenBuf)) s2 of
                  Inl err \<Rightarrow> Inl (Wrapped ''failed to read data'' err)
                | Inr (data, s3) \<Rightarrow>
                    if \<not> VerifyChecksum crc data (Uint32 crcBuf) then Inl ErrCorruptedData
                    else (case Unmarshal data of
                            Inl err \<Rightarrow> Inl (Wrapped ''failed to unmarshal record'' err)
                          | Inr record \<Rightarrow> Inr (record, s3)))))"

text \<open>
  \<open>WAL.Replay\<close>. The callback is a closure over the state it rebuilds: it takes the
  record and the state and returns its error, if any, with the new state. The inner loop
  of \<open>Replay\<close> over one segment is \<open>replay_segment\<close>; \<open>io.EOF\<close> and
  \<open>ErrCorruptedData\<close> leave the loop, any other error returns from \<open>Replay\<close>.
\<close>

function replay_segment ::
  "checksum \<Rightarrow> (Record \<Rightarrow> 's \<Rightarrow> error option \<times> 's) \<Rightarrow> byte list \<Rightarrow> 's \<Rightarrow> error option \<times> 's"
where
  "replay_segment crc callback s st =
     (case Read crc s of
        Inl err \<Rightarrow>
          if err = EOF then (None, st)
          else if err = ErrCorruptedData then (None, st)
          else (Some (Wrapped ''failed to read from segment'' err), st)
      | Inr (record, s') \<Rightarrow>
          (case callback record st of
             (Some err, st') \<Rightarrow> (Some (Wrapped ''callback failed'' err), st')
           | (None, st') \<Rightarrow> replay_segment crc callback s' st'))"
  by pat_completeness auto
termination
  by (relation "measure (\<lambda>(crc, callback, s, st). length s)")
    (auto simp: Read_def ReadFull_def split: sum.splits if_splits prod.splits)

fun Replay ::
  "checksum \<Rightarrow> (Record \<Rightarrow> 's \<Rightarrow> error option \<times> 's) \<Rightarrow> byte list list \<Rightarrow> 's \<Rightarrow> error option \<times> 's"
where
  "Replay crc callback [] st = (None, st)"
| "Replay crc callback (segment # segments) st =
     (case replay_segment crc callback segment st of
        (Some err, st') \<Rightarrow> (Some err, st')
      | (None, st') \<Rightarrow> Replay crc callback segments st')"

text \<open>A callback that never fails and collects the records it is given.\<close>

definition collect :: "Record \<Rightarrow> Record list \<Rightarrow> error option \<times> Record list" where
  "collect r rs = (None, rs @ [r])"

section \<open>The WAL as the manager sees it\<close>

text \<open>
  The WAL is its list of segment files: the ones already closed, in ascending id order,
  and the active one, with the size at which a segment counts as full. \<open>WAL.Write\<close>
  starts a new segment when the active one is full and appends the frame. A write that
  fails (\<open>io_ok = False\<close>) returns an error; the model leaves the files as they were.
\<close>

record WAL =
  closed :: "byte list list"
  active :: "byte list"
  segmentSize :: int

definition newWAL :: "int \<Rightarrow> WAL" where
  "newWAL maxSize = \<lparr>closed = [], active = [], segmentSize = maxSize\<rparr>"

definition segments :: "WAL \<Rightarrow> byte list list" where
  "segments w = closed w @ [active w]"

definition IsFull :: "WAL \<Rightarrow> bool" where
  "IsFull w = (int (length (active w)) \<ge> segmentSize w)"

definition createSegment :: "WAL \<Rightarrow> WAL" where
  "createSegment w = w\<lparr>closed := closed w @ [active w], active := []\<rparr>"

definition WAL_Write :: "checksum \<Rightarrow> bool \<Rightarrow> WAL \<Rightarrow> Record \<Rightarrow> error option \<times> WAL" where
  "WAL_Write crc io_ok w record =
     (if \<not> io_ok then (Some (Errorf ''failed to write to segment''), w)
      else let w1 = (if IsFull w then createSegment w else w)
           in (None, w1\<lparr>active := Segment_Write crc (active w1) record\<rparr>))"

section \<open>Queues and the manager\<close>

text \<open>
  The in-flight and dead-letter maps of a queue and the queue map of the manager are
  association lists, read with \<open>map_of\<close> and written with \<open>AList.update\<close> and
  \<open>AList.delete\<close>; a \<open>range\<close> over one of them visits the entries in list order.
  Queues and jobs are shared through pointers in the source: a write to a job or a queue
  is seen through the map that holds it. The model writes the changed object back into
  its map (\<open>putQueue\<close> for queues).
\<close>

record Queue =
  qname :: string
  ready :: priorityQueue
  inflight :: "(string \<times> Job) list"
  dlq :: "(string \<times> Job) list"

record Manager =
  queues :: "(string \<times> Queue) list"
  wal :: WAL
  idempotency :: "(string \<times> string) list"

definition NewManager :: "WAL \<Rightarrow> Manager" where
  "NewManager w = \<lparr>queues = [], wal = w, idempotency = []\<rparr>"

definition newQueue :: "string \<Rightarrow> Queue" where
  "newQueue n = \<lparr>qname = n, ready = newPriorityQueue, inflight = [], dlq = []\<rparr>"

definition getQueue :: "Manager \<Rightarrow> string \<Rightarrow> Queue option" where
  "getQueue m n = map_of (queues m) n"

definition getOrCreateQueue :: "Manager \<Rightarrow> string \<Rightarrow> Queue \<times> Manager" where
  "getOrCreateQueue m n =
     (case map_of (queues m) n of
        Some queue \<Rightarrow> (queue, m)
      | None \<Rightarrow> (newQueue n, m\<lparr>queues := AList.update n (newQueue n) (queues m)\<rparr>))"

definition putQueue :: "Manager \<Rightarrow> Queue \<Rightarrow> Manager" where
  "putQueue m queue = m\<lparr>queues := AList.update (qname queue) queue (queues m)\<rparr>"

subsection \<open>Startup replay\<close>

text \<open>
  The callback that \<open>replayWAL\<close> hands to \<open>WAL.Replay\<close>; it never returns an error.
  \<open>now\<close> is the reading of \<open>time.Now()\<close> that stamps \<open>EnqueuedAt\<close>.
\<close>

definition replayCallback :: "gotime \<Rightarrow> Record \<Rightarrow> Manager \<Rightarrow> error option \<times> Manager" where
  "replayCallback now record m =
     (if rType record = RecordTypeEnqueue then
        (let (queue, m1) = getOrCreateQueue m (rQueue record);
             j = \<lparr>ID = rJobID record, Queue = rQueue record, Payload = rPayload record,
                  Headers = rHeaders record, Priority = rPriority record,
                  Tries = rTries record, MaxRetries = rMaxRetries record, ETA = rETA record,
                  LeaseID = [], LeaseDeadline = zeroTime, Status = JobStatusReady,
                  EnqueuedAt = now\<rparr>
         in (None, putQueue m1 (queue\<lparr>ready := Push (ready queue) j\<rparr>)))
      else if rType record = RecordTypeAck then
        (case getQueue m (rQueue record) of
           None \<Rightarrow> (None, m)
         | Some queue \<Rightarrow>
             (None, putQueue m (queue\<lparr>inflight := AList.delete (rJobID record) (inflight queue)\<rparr>)))
      else if rType record = RecordTypeNack \<or> rType record = RecordTypeRequeue then
        (case getQueue m (rQueue record) of
           None \<Rightarrow> (None, m)
         | Some queue \<Rightarrow>
             (case map_of (inflight queue) (rJobID record) of
                None \<Rightarrow> (None, m)
              | Some j0 \<Rightarrow>
                  (let q1 = queue\<lparr>inflight := AList.delete (rJobID record) (inflight queue)\<rparr>;
                       j = j0\<lparr>Tries := rTries record, ETA := rETA record,
                              Status := JobStatusReady, LeaseID := [],
                              LeaseDeadline := zeroTime\<rparr>
                   in if ShouldRetry j
                      then (None, putQueue m (q1\<lparr>ready := Push (ready q1) j\<rparr>))
                      else (None, putQueue m
                              (q1\<lparr>dlq := AList.update (ID j) (j\<lparr>Status := JobStatusDLQ\<rparr>) (dlq q1)\<rparr>)))))
      else if rType record = RecordTypeTombstone then
        (case getQueue m (rQueue record) of
           None \<Rightarrow> (None, m)
         | Some queue \<Rightarrow>
             (None, putQueue m
                (queue\<lparr>inflight := AList.delete (rJobID record) (inflight queue),
                        dlq := AList.delete (rJobID record) (dlq queue)\<rparr>)))
      else (None, m))"

definition replayWAL :: "checksum \<Rightarrow> gotime \<Rightarrow> Manager \<Rightarrow> error option \<times> Manager" where
  "replayWAL crc now m = Replay crc (replayCallback now) (segments (wal m)) m"

subsection \<open>Enqueue\<close>









subsection \<open>Nack and the lease reclaimer\<close>

text \<open>
  \<open>findInflight\<close> is the search loop at the head of \<open>Ack\<close> and \<open>Nack\<close>: the first
  queue whose in-flight map holds the job id. \<open>backoff\<close> stands for
  \<open>backoff.CalculateDefault\<close>, whose result depends on a random jitter.
\<close>

fun findInflight :: "(string \<times> Queue) list \<Rightarrow> string \<Rightarrow> (Queue \<times> Job) option" where
  "findInflight [] jobID = None"
| "findInflight ((n, q) # qs) jobID =
     (case map_of (inflight q) jobID of
        Some j \<Rightarrow> Some (q, j)
      | None \<Rightarrow> findInflight qs jobID)"

definition Nack ::
  "checksum \<Rightarrow> bool \<Rightarrow> gotime \<Rightarrow> (32 word \<Rightarrow> int) \<Rightarrow> Manager \<Rightarrow> string \<Rightarrow> string \<Rightarrow> string
     \<Rightarrow> error option \<times> Manager"
where
  "Nack crc io_ok now backoff m jobID leaseID reason =
     (case findInflight (queues m) jobID of
        None \<Rightarrow> (Some (Errorf ''job not found or not inflight''), m)
      | Some (queue, j0) \<Rightarrow>
          if LeaseID j0 \<noteq> leaseID then (Some (Errorf ''invalid lease ID''), m)
          else
            (let j1 = j0\<lparr>Tries := Tries j0 + 1\<rparr>;
                 j2 = j1\<lparr>ETA := now + backoff (Tries j1), LeaseID := [],
                         LeaseDeadline := zeroTime\<rparr>
             in if ShouldRetry j2 then
                  (let j3 = j2\<lparr>Status := JobStatusReady\<rparr>;
                       q1 = queue\<lparr>inflight := AList.update jobID j3 (inflight queue)\<rparr>;
                       m1 = putQueue m q1;
                       record = \<lparr>rType = RecordTypeNack, rQueue = Queue j3, rJobID = jobID,
                                 rPayload = [], rHeaders = [], rPriority = Priority j3,
                                 rTries = Tries j3, rMaxRetries = MaxRetries j3,
                                 rETA = ETA j3, rLeaseID = leaseID, rReason = reason\<rparr>
                   in case WAL_Write crc io_ok (wal m1) record of
                        (Some err, w) \<Rightarrow>
                          (Some (Wrapped ''failed to write to WAL'' err), m1\<lparr>wal := w\<rparr>)
                      | (None, w) \<Rightarrow>
                          (None, putQueue (m1\<lparr>wal := w\<rparr>)
                             (q1\<lparr>inflight := AList.delete jobID (inflight q1),
                                 ready := Push (ready q1) j3\<rparr>)))
                else
                  (let j3 = j2\<lparr>Status := JobStatusDLQ\<rparr>;
                       q1 = queue\<lparr>inflight := AList.update jobID j3 (inflight queue)\<rparr>;
                       m1 = putQueue m q1;
                       record = \<lparr>rType = RecordTypeNack, rQueue = Queue j3, rJobID = jobID,
                                 rPayload = [], rHeaders = [], rPriority = 0,
                                 rTries = Tries j3, rMaxRetries = 0,
                                 rETA = zeroTime, rLeaseID = leaseID, rReason = reason\<rparr>
                   in case WAL_Write crc io_ok (wal m1) record of
                        (Some err, w) \<Rightarrow>
                          (Some (Wrapped ''failed to write to WAL'' err), m1\<lparr>wal := w\<rparr>)
                      | (None, w) \<Rightarrow>
                          (None, putQueue (m1\<lparr>wal := w\<rparr>)
                             (q1\<lparr>inflight := AList.delete jobID (inflight q1),
                                 dlq := AList.update jobID j3 (dlq q1)\<rparr>)))))"

text \<open>
  \<open>checkLeaseTimeouts\<close>: for every queue, the in-flight jobs whose lease deadline is set
  and lies before \<open>now\<close> are collected and then handled one by one (\<open>reclaim\<close>). The
  result of the WAL write in the retry branch is discarded, as in the source.
\<close>

definition lease_expired :: "gotime \<Rightarrow> Job \<Rightarrow> bool" where
  "lease_expired now j = (\<not> IsZero (LeaseDeadline j) \<and> LeaseDeadline j < now)"

definition reclaim ::
  "checksum \<Rightarrow> bool \<Rightarrow> gotime \<Rightarrow> (32 word \<Rightarrow> int) \<Rightarrow> Queue \<times> WAL \<Rightarrow> Job \<Rightarrow> Queue \<times> WAL"
where
  "reclaim crc io_ok now backoff qw j0 =
     (let (queue, w) = qw;
          j1 = j0\<lparr>Tries := Tries j0 + 1\<rparr>;
          j2 = j1\<lparr>ETA := now + backoff (Tries j1), LeaseID := [], LeaseDeadline := zeroTime\<rparr>
      in if ShouldRetry j2 then
           (let j3 = j2\<lparr>Status := JobStatusReady\<rparr>;
                q1 = queue\<lparr>inflight := AList.delete (ID j3) (inflight queue),
                           ready := Push (ready queue) j3\<rparr>;
                record = \<lparr>rType = RecordTypeRequeue, rQueue = Queue j3, rJobID = ID j3,
                          rPayload = [], rHeaders = [], rPriority = Priority j3,
                          rTries = Tries j3, rMaxRetries = MaxRetries j3, rETA = ETA j3,
                          rLeaseID = [], rReason = []\<rparr>
            in (q1, snd (WAL_Write crc io_ok w record)))
         else
           (let j3 = j2\<lparr>Status := JobStatusDLQ\<rparr>
            in (queue\<lparr>inflight := AList.delete (ID j3) (inflight queue),
                      dlq := AList.update (ID j3) j3 (dlq queue)\<rparr>, w)))"

definition checkQueue ::
  "checksum \<Rightarrow> bool \<Rightarrow> gotime \<Rightarrow> (32 word \<Rightarrow> int) \<Rightarrow> Manager \<Rightarrow> string \<times> Queue \<Rightarrow> Manager"
where
  "checkQueue crc io_ok now backoff m nq =
     (let queue = snd nq;
          expiredJobs = filter (lease_expired now) (map snd (inflight queue));
          (q1, w) = foldl (reclaim crc io_ok now backoff) (queue, wal m) expiredJobs
      in putQueue (m\<lparr>wal := w\<rparr>) q1)"

definition checkLeaseTimeouts ::
  "checksum \<Rightarrow> bool \<Rightarrow> gotime \<Rightarrow> (32 word \<Rightarrow> int) \<Rightarrow> Manager \<Rightarrow> Manager"
where
  "checkLeaseTimeouts crc io_ok now backoff m =
     foldl (checkQueue crc io_ok now backoff) m (queues m)"

subsection \<open>Sample inputs\<close>

text \<open>The record that \<open>Ack\<close> writes for a job, and a WAL holding two given records.\<close>

definition ack_record :: "string \<Rightarrow> string \<Rightarrow> string \<Rightarrow> Record" where
  "ack_record q jid lease =
     \<lparr>rType = RecordTypeAck, rQueue = q, rJobID = jid, rPayload = [], rHeaders = [],
      rPriority = 0, rTries = 0, rMaxRetries = 0, rETA = zeroTime, rLeaseID = lease,
      rReason = []\<rparr>"

definition wal_of_two :: "checksum \<Rightarrow> Record \<Rightarrow> Record \<Rightarrow> WAL" where
  "wal_of_two crc r1 r2 =
     snd (WAL_Write crc True (snd (WAL_Write crc True (newWAL 1024) r1)) r2)"

text \<open>A manager with the single queue \<open>q\<close> that holds one leased job \<open>j1\<close>, with
  lease token \<open>L\<close>, the given attempt count and limit and the given lease deadline.\<close>

definition leased_job :: "32 word \<Rightarrow> 32 word \<Rightarrow> gotime \<Rightarrow> Job" where
  "leased_job tries maxRetries deadline =
     \<lparr>ID = ''j1'', Queue = ''q'', Payload = [], Headers = [], Priority = 5, Tries = tries,
      MaxRetries = maxRetries, ETA = 0, LeaseID = ''L'', LeaseDeadline = deadline,
      Status = JobStatusInflight, EnqueuedAt = 0\<rparr>"

definition one_leased :: "32 word \<Rightarrow> 32 word \<Rightarrow> gotime \<Rightarrow> Manager" where
  "one_leased tries maxRetries deadline =
     \<lparr>queues = [(''q'', \<lparr>qname = ''q'', ready = newPriorityQueue,
                          inflight = [(''j1'', leased_job tries maxRetries deadline)],
                          dlq = []\<rparr>)],
      wal = newWAL 1024, idempotency = []\<rparr>"







section \<open>The sift loops keep the entries and their indices\<close>

declare up.simps [simp del] down_loop.simps [simp del]


lemma length_Swap [simp]: "length (Swap h i j) = length h"
  by (simp add: Swap_def Let_def)

lemma Swap_nth_other: "k \<noteq> i \<Longrightarrow> k \<noteq> j \<Longrightarrow> Swap h i j ! k = h ! k"
  by (simp add: Swap_def Let_def)

lemma map_job_Swap:
  "i < length h \<Longrightarrow> j < length h \<Longrightarrow> map job (Swap h i j) = (map job h)[i := job (h ! j), j := job (h ! i)]"
  by (auto simp: Swap_def Let_def list_eq_iff_nth_eq nth_list_update)


lemma mset_jobs_Swap:
  "i < length h \<Longrightarrow> j < length h \<Longrightarrow> heap_jobs (Swap h i j) = heap_jobs h"
  unfolding heap_jobs_def map_job_Swap using mset_swap [of j "map job h" i] by simp

lemma idx_ok_Swap: "idx_ok h \<Longrightarrow> i < length h \<Longrightarrow> j < length h \<Longrightarrow> idx_ok (Swap h i j)"
  by (auto simp: idx_ok_def Swap_def Let_def nth_list_update)

lemma length_up [simp]: "length (up h j) = length h"
  by (induction h j rule: up.induct) (subst up.simps, simp add: Let_def)

lemma mset_jobs_up: "j < length h \<Longrightarrow> heap_jobs (up h j) = heap_jobs h"
proof (induction h j rule: up.induct)
  case (1 h j)
  show ?case
  proof (cases "(j - 1) div 2 = j \<or> \<not> Less h j ((j - 1) div 2)")
    case True
    then show ?thesis by (subst up.simps) (simp add: Let_def)
  next
    case False
    have lt: "(j - 1) div 2 < length h" using "1.prems" by simp
    have "heap_jobs (up (Swap h ((j - 1) div 2) j) ((j - 1) div 2)) = heap_jobs (Swap h ((j - 1) div 2) j)"
      using "1.IH" [OF refl False] lt by simp
    with False lt "1.prems" show ?thesis
      by (subst up.simps) (simp add: Let_def mset_jobs_Swap)
  qed
qed

lemma idx_ok_up: "idx_ok h \<Longrightarrow> j < length h \<Longrightarrow> idx_ok (up h j)"
proof (induction h j rule: up.induct)
  case (1 h j)
  show ?case
  proof (cases "(j - 1) div 2 = j \<or> \<not> Less h j ((j - 1) div 2)")
    case True
    with "1.prems" show ?thesis by (subst up.simps) (simp add: Let_def)
  next
    case False
    have lt: "(j - 1) div 2 < length h" using "1.prems" by simp
    have "idx_ok (up (Swap h ((j - 1) div 2) j) ((j - 1) div 2))"
      using "1.IH" [OF refl False] lt "1.prems" by (simp add: idx_ok_Swap)
    with False show ?thesis
      by (subst up.simps) (simp add: Let_def)
  qed
qed

lemma up_nth_above: "j < k \<Longrightarrow> up h j ! k = h ! k"
proof (induction h j rule: up.induct)
  case (1 h j)
  show ?case
  proof (cases "(j - 1) div 2 = j \<or> \<not> Less h j ((j - 1) div 2)")
    case True
    then show ?thesis by (subst up.simps) (simp add: Let_def)
  next
    case False
    have lt: "(j - 1) div 2 < k" using "1.prems" by simp
    have "up (Swap h ((j - 1) div 2) j) ((j - 1) div 2) ! k = Swap h ((j - 1) div 2) j ! k"
      using "1.IH" [OF refl False lt] .
    also have "\<dots> = h ! k" using lt "1.prems" by (simp add: Swap_nth_other)
    finally show ?thesis using False
      by (subst up.simps) (simp add: Let_def)
  qed
qed

lemma length_down_loop [simp]: "length (fst (down_loop h i n)) = length h"
  by (induction h i n rule: down_loop.induct) (subst down_loop.simps, simp add: Let_def)

lemma mset_jobs_down_loop: "n \<le> length h \<Longrightarrow> heap_jobs (fst (down_loop h i n)) = heap_jobs h"
proof (induction h i n rule: down_loop.induct)
  case (1 h i n)
  define j1 where "j1 = 2 * i + 1"
  define j where "j = (if j1 + 1 < n \<and> Less h (j1 + 1) j1 then j1 + 1 else j1)"
  show ?case
  proof (cases "j1 \<ge> n \<or> \<not> Less h j i")
    case True
    then show ?thesis by (subst down_loop.simps) (auto simp: Let_def j1_def j_def)
  next
    case False
    then have a: "\<not> n \<le> j1" and b: "\<not> \<not> Less h j i" by auto
    have jn: "j < n" using a by (auto simp: j_def)
    have "i < n" using a by (simp add: j1_def)
    have step: "down_loop h i n = down_loop (Swap h i j) j n"
      using a b unfolding j_def j1_def by (subst down_loop.simps) (auto simp: Let_def split: if_splits)
    have "heap_jobs (fst (down_loop (Swap h i j) j n)) = heap_jobs (Swap h i j)"
      using "1.IH" [OF j1_def a j_def b] "1.prems" by simp
    also have "\<dots> = heap_jobs h" using jn \<open>i < n\<close> "1.prems" by (simp add: mset_jobs_Swap)
    finally show ?thesis by (simp add: step)
  qed
qed

lemma idx_ok_down_loop: "idx_ok h \<Longrightarrow> n \<le> length h \<Longrightarrow> idx_ok (fst (down_loop h i n))"
proof (induction h i n rule: down_loop.induct)
  case (1 h i n)
  define j1 where "j1 = 2 * i + 1"
  define j where "j = (if j1 + 1 < n \<and> Less h (j1 + 1) j1 then j1 + 1 else j1)"
  show ?case
  proof (cases "j1 \<ge> n \<or> \<not> Less h j i")
    case True
    with "1.prems" show ?thesis by (subst down_loop.simps) (auto simp: Let_def j1_def j_def)
  next
    case False
    then have a: "\<not> n \<le> j1" and b: "\<not> \<not> Less h j i" by auto
    have jn: "j < n" using a by (auto simp: j_def)
    have "i < n" using a by (simp add: j1_def)
    have step: "down_loop h i n = down_loop (Swap h i j) j n"
      using a b unfolding j_def j1_def by (subst down_loop.simps) (auto simp: Let_def split: if_splits)
    have "idx_ok (fst (down_loop (Swap h i j) j n))"
      using "1.IH" [OF j1_def a j_def b] "1.prems" jn \<open>i < n\<close> by (simp add: idx_ok_Swap)
    then show ?thesis by (simp add: step)
  qed
qed

lemma down_loop_nth_above: "n \<le> k \<Longrightarrow> fst (down_loop h i n) ! k = h ! k"
proof (induction h i n rule: down_loop.induct)
  case (1 h i n)
  define j1 where "j1 = 2 * i + 1"
  define j where "j = (if j1 + 1 < n \<and> Less h (j1 + 1) j1 then j1 + 1 else j1)"
  show ?case
  proof (cases "j1 \<ge> n \<or> \<not> Less h j i")
    case True
    then show ?thesis by (subst down_loop.simps) (auto simp: Let_def j1_def j_def)
  next
    case False
    then have a: "\<not> n \<le> j1" and b: "\<not> \<not> Less h j i" by auto
    have jn: "j < n" using a by (auto simp: j_def)
    have "i < n" using a by (simp add: j1_def)
    have step: "down_loop h i n = down_loop (Swap h i j) j n"
      using a b unfolding j_def j1_def by (subst down_loop.simps) (auto simp: Let_def split: if_splits)
    have "fst (down_loop (Swap h i j) j n) ! k = Swap h i j ! k"
      using "1.IH" [OF j1_def a j_def b] "1.prems" by simp
    also have "\<dots> = h ! k" using jn \<open>i < n\<close> "1.prems" by (simp add: Swap_nth_other)
    finally show ?thesis by (simp add: step)
  qed
qed

section \<open>The ready structure keeps its job ids unique\<close>

lemma ids_of_jobs: "mset (ids h) = image_mset ID (heap_jobs h)"
  by (simp add: ids_def heap_jobs_def multiset.map_comp comp_def)

lemma ids_cong: "heap_jobs h' = heap_jobs h \<Longrightarrow> mset (ids h') = mset (ids h)"
  by (simp add: ids_of_jobs)

lemma ids_cong_distinct: "heap_jobs h' = heap_jobs h \<Longrightarrow> distinct (ids h') = distinct (ids h)"
  by (rule mset_eq_imp_distinct_iff) (rule ids_cong)

lemma ids_cong_set: "heap_jobs h' = heap_jobs h \<Longrightarrow> set (ids h') = set (ids h)"
  by (rule mset_eq_setD) (rule ids_cong)

lemma heap_Push_jobs: "heap_jobs (heap_Push h x) = heap_jobs h + {#job x#}"
  by (simp add: heap_Push_def mset_jobs_up) (simp add: heap_jobs_def)

lemma heap_Push_idx: "idx_ok h \<Longrightarrow> idx_ok (heap_Push h x)"
  unfolding heap_Push_def
  by (rule idx_ok_up) (auto simp: idx_ok_def nth_append)

lemma pq_inv_new: "pq_inv newPriorityQueue"
  by (simp add: pq_inv_def newPriorityQueue_def ids_def idx_ok_def)

lemma pq_inv_Push: assumes "pq_inv pq" shows "pq_inv (Push pq j)"
proof (cases "ID j \<in> items pq")
  case True
  with assms show ?thesis by (simp add: Push_def)
next
  case False
  let ?h = "heap_Push (heap pq) \<lparr>job = j, index = 0\<rparr>"
  have m: "mset (ids ?h) = mset (ids (heap pq)) + {#ID j#}"
    by (simp add: ids_of_jobs heap_Push_jobs)
  have "mset (ids ?h) = mset (ID j # ids (heap pq))" using m by simp
  then have d: "distinct (ids ?h) = distinct (ID j # ids (heap pq))"
    and s: "set (ids ?h) = set (ID j # ids (heap pq))"
    by (rule mset_eq_imp_distinct_iff, rule mset_eq_setD)
  from assms False d s show ?thesis
    by (simp add: Push_def pq_inv_def heap_Push_idx)
qed

lemma heap_jobs_butlast: "h \<noteq> [] \<Longrightarrow> heap_jobs h = heap_jobs (butlast h) + {#job (last h)#}"
proof -
  assume "h \<noteq> []"
  then have "h = butlast h @ [last h]" by simp
  then have "heap_jobs h = heap_jobs (butlast h @ [last h])" by simp
  then show ?thesis by (simp add: heap_jobs_def)
qed

lemma idx_ok_butlast: "idx_ok h \<Longrightarrow> idx_ok (butlast h)"
  by (simp add: idx_ok_def nth_butlast)

lemma heap_Pop_props:
  assumes "heap_Pop h = Some (item, h')"
  shows "heap_jobs h = heap_jobs h' + {#job item#}" and "idx_ok h \<Longrightarrow> idx_ok h'"
    and "length h' = length h - 1"
proof -
  from assms have ne: "h \<noteq> []" by (auto simp: heap_Pop_def split: if_splits)
  define n where "n = length h - 1"
  define h2 where "h2 = fst (down (Swap h 0 n) 0 n)"
  have h2: "h2 = fst (down_loop (Swap h 0 n) 0 n)"
    by (simp add: h2_def down_def split: prod.splits)
  have nlt: "n < length h" using ne by (simp add: n_def)
  have r: "item = (last h2)\<lparr>index := - 1\<rparr>" "h' = butlast h2"
    using assms ne by (auto simp: heap_Pop_def Let_def jobHeap_Pop_def n_def h2_def)
  have len: "length h2 = length h" by (simp add: h2)
  then have ne2: "h2 \<noteq> []" using ne by auto
  have "heap_jobs h2 = heap_jobs (Swap h 0 n)"
    unfolding h2 by (rule mset_jobs_down_loop) (simp add: n_def)
  also have "\<dots> = heap_jobs h" using nlt ne by (simp add: mset_jobs_Swap)
  finally have j: "heap_jobs h2 = heap_jobs h" .
  show "heap_jobs h = heap_jobs h' + {#job item#}"
    using heap_jobs_butlast [OF ne2] j r by simp
  show "length h' = length h - 1" using r len by simp
  assume "idx_ok h"
  then have "idx_ok (Swap h 0 n)" using nlt ne by (simp add: idx_ok_Swap)
  then have "idx_ok h2" unfolding h2 by (rule idx_ok_down_loop) (simp add: n_def)
  then show "idx_ok h'" using r by (simp add: idx_ok_butlast)
qed

lemma ids_split: "heap_jobs h = heap_jobs h' + {#j#} \<Longrightarrow> mset (ids h) = mset (ID j # ids h')"
  by (simp add: ids_of_jobs)

lemma pq_inv_Pop: assumes "pq_inv pq" shows "pq_inv (snd (Pop pq))"
proof (cases "heap_Pop (heap pq)")
  case None
  with assms show ?thesis by (simp add: Pop_def)
next
  case (Some r)
  obtain item h' where r: "r = (item, h')" by (cases r)
  note P = heap_Pop_props [OF Some [unfolded r]]
  have m: "mset (ids (heap pq)) = mset (ID (job item) # ids h')" by (rule ids_split) (rule P(1))
  have d: "distinct (ID (job item) # ids h')"
    using mset_eq_imp_distinct_iff [OF m] assms by (simp add: pq_inv_def)
  have s: "set (ids (heap pq)) = set (ID (job item) # ids h')" by (rule mset_eq_setD [OF m])
  show ?thesis
  proof (cases "Len pq = 0")
    case True
    with assms show ?thesis by (simp add: Pop_def)
  next
    case False
    have "snd (Pop pq) = pq\<lparr>heap := h', items := items pq - {ID (job item)}\<rparr>"
      using False Some r by (simp add: Pop_def)
    moreover have "idx_ok h'" using P(2) assms by (simp add: pq_inv_def)
    ultimately show ?thesis using d s assms by (auto simp: pq_inv_def)
  qed
qed

lemma pq_inv_PopReady: "pq_inv pq \<Longrightarrow> pq_inv (snd (PopReady pq now))"
  by (simp add: PopReady_def Let_def pq_inv_Pop)

lemma Swap_nth_snd: "i < length h \<Longrightarrow> j < length h \<Longrightarrow> job (Swap h i j ! j) = job (h ! i)"
  by (simp add: Swap_def Let_def nth_list_update)

lemma heap_Remove_props:
  assumes "heap_Remove h i = Some (item, h')"
  shows "heap_jobs h = heap_jobs h' + {#job item#}" and "idx_ok h \<Longrightarrow> idx_ok h'"
    and "job item = job (h ! nat i)"
proof -
  from assms have rng: "0 \<le> i" "i < int (length h)"
    by (auto simp: heap_Remove_def split: if_splits)
  then have ne: "h \<noteq> []" by auto
  define n where "n = length h - 1"
  define k where "k = nat i"
  have kn: "k \<le> n" "n < length h" "k < length h" using rng ne by (auto simp: n_def k_def)
  define hs where "hs = Swap h k n"
  define h3 where "h3 = fst (down_loop hs k n)"
  define moved where "moved = (snd (down_loop hs k n) > k)"
  define h1 where "h1 = (if n \<noteq> k then (if \<not> moved then up h3 k else h3) else h)"
  have "heap_Remove h i = Some (jobHeap_Pop h1)"
    unfolding h1_def h3_def moved_def hs_def n_def k_def heap_Remove_def down_def Let_def
    using rng by (simp split: prod.splits)
  with assms have r: "item = (last h1)\<lparr>index := - 1\<rparr>" "h' = butlast h1"
    by (auto simp: jobHeap_Pop_def)
  have len: "length h1 = length h" by (simp add: h1_def h3_def hs_def)
  then have ne1: "h1 \<noteq> []" using ne by auto
  have js: "heap_jobs hs = heap_jobs h" unfolding hs_def using kn by (simp add: mset_jobs_Swap)
  have j3: "heap_jobs h3 = heap_jobs h"
    unfolding h3_def using js kn mset_jobs_down_loop [of n hs k] by (simp add: hs_def)
  have l3: "length h3 = length h" by (simp add: h3_def hs_def)
  have j1: "heap_jobs h1 = heap_jobs h"
    using j3 l3 kn by (simp add: h1_def mset_jobs_up)
  show "heap_jobs h = heap_jobs h' + {#job item#}"
    using heap_jobs_butlast [OF ne1] j1 r by simp
  have lastn: "last h1 = h1 ! n" using ne1 len by (simp add: last_conv_nth n_def)
  have "job (h1 ! n) = job (h ! k)"
  proof (cases "n = k")
    case True
    then show ?thesis by (simp add: h1_def)
  next
    case False
    then have lt: "k < n" using kn by simp
    have "h1 ! n = h3 ! n" using lt by (simp add: h1_def up_nth_above)
    also have "\<dots> = hs ! n" unfolding h3_def by (rule down_loop_nth_above) simp
    finally show ?thesis using kn by (simp add: hs_def Swap_nth_snd)
  qed
  then show "job item = job (h ! nat i)" using r lastn by (simp add: k_def)
  assume ok: "idx_ok h"
  then have "idx_ok hs" unfolding hs_def using kn by (simp add: idx_ok_Swap)
  then have "idx_ok h3" unfolding h3_def using kn by (intro idx_ok_down_loop) (simp_all add: hs_def)
  then have "idx_ok h1" using ok kn l3 by (simp add: h1_def idx_ok_up)
  then show "idx_ok h'" using r by (simp add: idx_ok_butlast)
qed

lemma item_of_Some:
  assumes "item_of h jobID = Some item" and "idx_ok h"
  shows "ID (job item) = jobID" and "0 \<le> index item" and "h ! nat (index item) = item"
proof -
  from assms(1) obtain i where i: "i < length h" "h ! i = item" "ID (job item) = jobID"
    by (auto simp: item_of_def find_Some_iff)
  show "ID (job item) = jobID" by (rule i(3))
  have "index item = int i" using assms(2) i by (auto simp: idx_ok_def)
  then show "0 \<le> index item" and "h ! nat (index item) = item" using i by simp_all
qed

lemma pq_inv_Remove: assumes "pq_inv pq" shows "pq_inv (snd (Remove pq jobID))"
proof (cases "jobID \<in> items pq")
  case False
  with assms show ?thesis by (simp add: Remove_def)
next
  case True
  show ?thesis
  proof (cases "item_of (heap pq) jobID")
    case None
    with assms show ?thesis by (simp add: Remove_def)
  next
    case (Some item)
    have ok: "idx_ok (heap pq)" using assms by (simp add: pq_inv_def)
    note I = item_of_Some [OF Some ok]
    show ?thesis
    proof (cases "heap_Remove (heap pq) (index item)")
      case None
      with assms Some show ?thesis by (simp add: Remove_def)
    next
      case (Some r)
      obtain removed h' where r: "r = (removed, h')" by (cases r)
      note P = heap_Remove_props [OF Some [unfolded r]]
      have rid: "ID (job removed) = jobID" using P(3) I by simp
      have m: "mset (ids (heap pq)) = mset (ID (job removed) # ids h')"
        by (rule ids_split) (rule P(1))
      have d: "distinct (jobID # ids h')"
        using mset_eq_imp_distinct_iff [OF m] assms rid by (simp add: pq_inv_def)
      have s: "set (ids (heap pq)) = set (jobID # ids h')"
        using mset_eq_setD [OF m] rid by simp
      have "snd (Remove pq jobID) = pq\<lparr>heap := h', items := items pq - {jobID}\<rparr>"
        using True \<open>item_of (heap pq) jobID = Some item\<close> Some r by (simp add: Remove_def)
      moreover have "idx_ok h'" using P(2) ok by simp
      ultimately show ?thesis using d s assms by (auto simp: pq_inv_def)
    qed
  qed
qed

lemma pq_inv_apply_op: "pq_inv pq \<Longrightarrow> pq_inv (apply_op pq op)"
  by (cases op) (simp_all add: pq_inv_Push pq_inv_Pop pq_inv_PopReady pq_inv_Remove)

lemma pq_inv_foldl: "pq_inv pq \<Longrightarrow> pq_inv (foldl apply_op pq ops)"
  by (induction ops arbitrary: pq) (simp_all add: pq_inv_apply_op)

lemma pq_inv_run_ops: "pq_inv (run_ops ops)"
  by (simp add: run_ops_def pq_inv_foldl pq_inv_new)

section \<open>Reading back what \<open>Marshal\<close> wrote\<close>

lemma length_le_bytes [simp]: "length (le_bytes k n) = k"
  by (induction k arbitrary: n) simp_all

lemma le_val_le_bytes: "le_val (le_bytes k n) = n mod 256 ^ k"
proof (induction k arbitrary: n)
  case 0
  show ?case by simp
next
  case (Suc k)
  have "unat (word_of_nat (n mod 256) :: byte) = n mod 256"
    by (simp add: unat_of_nat)
  then show ?case
    by (simp add: Suc mod_mult2_eq)
qed

lemma Uint16_Put [simp]: "Uint16 (PutUint16 v @ rest) = v"
proof -
  have "unat v < 256 ^ 2" using unsigned_less [of v, where ?'a = nat] by simp
  then show ?thesis by (simp add: Uint16_def PutUint16_def le_val_le_bytes)
qed

lemma Uint32_Put [simp]: "Uint32 (PutUint32 v @ rest) = v"
proof -
  have "unat v < 256 ^ 4" using unsigned_less [of v, where ?'a = nat] by simp
  then show ?thesis by (simp add: Uint32_def PutUint32_def le_val_le_bytes)
qed

lemma Uint64_Put [simp]: "Uint64 (PutUint64 v @ rest) = v"
proof -
  have "unat v < 256 ^ 8" using unsigned_less [of v, where ?'a = nat] by simp
  then show ?thesis by (simp add: Uint64_def PutUint64_def le_val_le_bytes)
qed

lemma length_Put [simp]:
  "length (PutUint16 a) = 2" "length (PutUint32 b) = 4" "length (PutUint64 c) = 8"
  by (simp_all add: PutUint16_def PutUint32_def PutUint64_def)

lemma string_of_bytes_of [simp]: "string_of (bytes_of s) = s"
proof -
  have "char_of (unat (word_of_nat (of_char c) :: byte)) = c" for c :: char
    by (simp add: unat_of_nat)
  then show ?thesis by (simp add: string_of_def bytes_of_def comp_def)
qed

lemma length_bytes_of [simp]: "length (bytes_of s) = length s"
  by (simp add: bytes_of_def)

lemma read_u8_enc [simp]: "read_u8 (b # rest) = Some (b, rest)"
  by (simp add: read_u8_def)

lemma read_u16_enc [simp]: "read_u16 (PutUint16 v @ rest) = Some (v, rest)"
  by (simp add: read_u16_def)

lemma read_u32_enc [simp]: "read_u32 (PutUint32 v @ rest) = Some (v, rest)"
  by (simp add: read_u32_def)

lemma read_u64_enc [simp]: "read_u64 (PutUint64 v @ rest) = Some (v, rest)"
  by (simp add: read_u64_def)

lemma read_bytes_enc [simp]: "read_bytes (length bs) (bs @ rest) = Some (bs, rest)"
  by (simp add: read_bytes_def)

lemma read_str16_enc:
  "length s < 65536 \<Longrightarrow> read_str16 (put_str16 s @ rest) = Some (s, rest)"
  using read_bytes_enc [of "bytes_of s" rest]
  by (simp add: read_str16_def put_str16_def unat_of_nat del: read_bytes_enc)

lemma read_payload_enc:
  "length p < 4294967296 \<Longrightarrow>
   read_payload (PutUint32 (word_of_nat (length p)) @ p @ rest) = Some (p, rest)"
  by (simp add: read_payload_def unat_of_nat)

lemma update_fresh: "k \<notin> fst ` set m \<Longrightarrow> AList.update k v m = m @ [(k, v)]"
  by (induction m) auto


lemma read_headers_enc:
  "distinct (map fst (m @ hs)) \<Longrightarrow> \<forall>(k, v) \<in> set hs. length k < 65536 \<and> length v < 65536 \<Longrightarrow>
   read_headers (length hs) m (put_headers hs @ rest) = Some (m @ hs, rest)"
proof (induction hs arbitrary: m)
  case Nil
  show ?case by (simp add: put_headers_def)
next
  case (Cons kv hs)
  obtain k v where kv: "kv = (k, v)" by (cases kv)
  have fresh: "k \<notin> fst ` set m" using Cons.prems(1) kv by auto
  have b: "length k < 65536" "length v < 65536" using Cons.prems(2) kv by auto
  have d: "distinct (map fst ((m @ [(k, v)]) @ hs))" using Cons.prems(1) kv by simp
  have r: "\<forall>(k, v) \<in> set hs. length k < 65536 \<and> length v < 65536" using Cons.prems(2) by simp
  have "put_headers (kv # hs) @ rest = put_str16 k @ put_str16 v @ put_headers hs @ rest"
    by (simp add: put_headers_def kv)
  then show ?case
    using Cons.IH [OF d r] b fresh
    by (simp add: read_str16_enc update_fresh kv)
qed

lemma Unmarshal_rest_Marshal:
  assumes "fields_fit r"
  shows "Unmarshal_rest (Marshal r @ rest)
           = Some (r\<lparr>rETA := time_UnixMilli (UnixMilli (rETA r))\<rparr>, rest)"
proof -
  from assms have h: "distinct (map fst ([] @ rHeaders r))"
      "\<forall>(k, v) \<in> set (rHeaders r). length k < 65536 \<and> length v < 65536"
      "length (rHeaders r) < 65536"
    by (auto simp: fields_fit_def headers_ok_def)
  have hd: "read_headers (length (rHeaders r)) [] (put_headers (rHeaders r) @ tl)
              = Some (rHeaders r, tl)" for tl
    using read_headers_enc [OF h(1) h(2), of tl] by simp
  from assms h(3) show ?thesis
    by (simp add: Unmarshal_rest_def Marshal_def fields_fit_def read_str16_enc
        read_payload_enc hd unat_of_nat)
qed

lemma time_UnixMilli_inverse: "eta_fits t \<Longrightarrow> time_UnixMilli (UnixMilli t) = t"
proof -
  assume a: "eta_fits t"
  then have "sint (word_of_int (t div 1000000) :: 64 word) = t div 1000000"
    by (simp add: sint_sbintrunc' signed_take_bit_int_eq_self eta_fits_def)
  moreover have "t div 1000000 * 1000000 = t"
    using a by (simp add: eta_fits_def mod_0_imp_dvd)
  ultimately show ?thesis by (simp add: time_UnixMilli_def UnixMilli_def)
qed

lemma Unmarshal_Marshal_general:
  "fields_fit r \<Longrightarrow> Unmarshal (Marshal r) = Inr (r\<lparr>rETA := time_UnixMilli (UnixMilli (rETA r))\<rparr>)"
  using Unmarshal_rest_Marshal [of r "[]"] by (simp add: Unmarshal_def)


lemma fields_fit_sample: "fields_fit (sample_record ty ''q'' ''j1'' eta)"
  by (simp add: fields_fit_def headers_ok_def sample_record_def)

section \<open>Truncated input is rejected\<close>

lemma trunc_safe_bind:
  assumes "trunc_safe p" and "\<And>v. trunc_safe (f v)"
  shows "trunc_safe (\<lambda>bs. Option.bind (p bs) (\<lambda>(v, r). f v r))"
  unfolding trunc_safe_def
proof (intro allI impI)
  fix bs w rest
  assume a: "Option.bind (p bs) (\<lambda>(v, r). f v r) = Some (w, rest)"
  then obtain v r1 where p: "p bs = Some (v, r1)" and f: "f v r1 = Some (w, rest)"
    by (auto simp: bind_eq_Some_conv)
  from assms(1) p obtain c1 where c1: "bs = c1 @ r1" "\<And>ys. p (c1 @ ys) = Some (v, ys)"
      "\<And>n. n < length c1 \<Longrightarrow> p (take n c1) = None"
    unfolding trunc_safe_def by blast
  from assms(2) [of v] f obtain c2 where c2: "r1 = c2 @ rest" "\<And>ys. f v (c2 @ ys) = Some (w, ys)"
      "\<And>n. n < length c2 \<Longrightarrow> f v (take n c2) = None"
    unfolding trunc_safe_def by blast
  show "\<exists>c. bs = c @ rest \<and> (\<forall>ys. Option.bind (p (c @ ys)) (\<lambda>(v, r). f v r) = Some (w, ys))
           \<and> (\<forall>n<length c. Option.bind (p (take n c)) (\<lambda>(v, r). f v r) = None)"
  proof (intro exI [of _ "c1 @ c2"] conjI allI impI)
    show "bs = (c1 @ c2) @ rest" using c1(1) c2(1) by simp
  next
    fix ys
    show "Option.bind (p ((c1 @ c2) @ ys)) (\<lambda>(v, r). f v r) = Some (w, ys)"
      using c1(2) [of "c2 @ ys"] c2(2) [of ys] by simp
  next
    fix n assume n: "n < length (c1 @ c2)"
    show "Option.bind (p (take n (c1 @ c2))) (\<lambda>(v, r). f v r) = None"
    proof (cases "n < length c1")
      case True
      then show ?thesis using c1(3) [of n] by simp
    next
      case False
      then have "take n (c1 @ c2) = c1 @ take (n - length c1) c2" by simp
      moreover have "n - length c1 < length c2" using n False by simp
      ultimately show ?thesis
        using c1(2) [of "take (n - length c1) c2"] c2(3) [of "n - length c1"] by simp
    qed
  qed
qed

lemma trunc_safe_return: "trunc_safe (\<lambda>bs. Some (v, bs))"
  unfolding trunc_safe_def by (intro allI impI exI [of _ "[]"]) auto

lemma trunc_safe_read_bytes: "trunc_safe (read_bytes n)"
  unfolding trunc_safe_def
proof (intro allI impI)
  fix bs v rest assume "read_bytes n bs = Some (v, rest)"
  then have a: "n \<le> length bs" "v = take n bs" "rest = drop n bs"
    by (auto simp: read_bytes_def split: if_splits)
  show "\<exists>c. bs = c @ rest \<and> (\<forall>ys. read_bytes n (c @ ys) = Some (v, ys))
          \<and> (\<forall>k<length c. read_bytes n (take k c) = None)"
    using a by (intro exI [of _ "take n bs"]) (auto simp: read_bytes_def)
qed


lemma trunc_safe_fixed:
  assumes "\<And>bs. p bs = (if k > length bs then None else Some (F (take k bs), drop k bs))"
  shows "trunc_safe p"
  unfolding trunc_safe_def
proof (intro allI impI)
  fix bs v rest assume "p bs = Some (v, rest)"
  then have a: "k \<le> length bs" "v = F (take k bs)" "rest = drop k bs"
    by (auto simp: assms split: if_splits)
  show "\<exists>c. bs = c @ rest \<and> (\<forall>ys. p (c @ ys) = Some (v, ys)) \<and> (\<forall>n<length c. p (take n c) = None)"
    using a by (intro exI [of _ "take k bs"]) (auto simp: assms)
qed

lemma trunc_safe_read_u8: "trunc_safe read_u8"
proof (rule trunc_safe_fixed [where k = 1 and F = hd])
  fix bs :: "byte list"
  show "read_u8 bs = (if 1 > length bs then None else Some (hd (take 1 bs), drop 1 bs))"
    by (cases bs) (simp_all add: read_u8_def drop_Suc)
qed

lemma trunc_safe_read_u16: "trunc_safe read_u16"
  by (rule trunc_safe_fixed [where k = 2 and F = "\<lambda>b. word_of_nat (le_val b)"])
    (simp add: read_u16_def Uint16_def)

lemma trunc_safe_read_u32: "trunc_safe read_u32"
  by (rule trunc_safe_fixed [where k = 4 and F = "\<lambda>b. word_of_nat (le_val b)"])
    (simp add: read_u32_def Uint32_def)

lemma trunc_safe_read_u64: "trunc_safe read_u64"
  by (rule trunc_safe_fixed [where k = 8 and F = "\<lambda>b. word_of_nat (le_val b)"])
    (simp add: read_u64_def Uint64_def)

lemma trunc_safe_read_str16: "trunc_safe read_str16"
  unfolding read_str16_def
  by (intro trunc_safe_bind trunc_safe_read_u16 trunc_safe_read_bytes trunc_safe_return)

lemma trunc_safe_read_payload: "trunc_safe read_payload"
proof -
  have eq: "read_payload = (\<lambda>bs. Option.bind (read_u32 bs) (\<lambda>(n, r1). read_bytes (unat n) r1))"
    by (rule ext) (simp add: read_payload_def)
  show ?thesis
    by (subst eq) (intro trunc_safe_bind trunc_safe_read_u32 trunc_safe_read_bytes)
qed

lemma trunc_safe_read_headers: "trunc_safe (read_headers n m)"
proof (induction n arbitrary: m)
  case 0
  have eq: "read_headers 0 m = (\<lambda>bs. Some (m, bs))" by (rule ext) simp
  show ?case by (subst eq) (rule trunc_safe_return)
next
  case (Suc n)
  have eq: "read_headers (Suc n) m =
      (\<lambda>bs. Option.bind (read_str16 bs) (\<lambda>(k, r1). Option.bind (read_str16 r1)
          (\<lambda>(v, r2). read_headers n (AList.update k v m) r2)))"
    by (rule ext) simp
  show ?case
    by (subst eq) (intro trunc_safe_bind trunc_safe_read_str16 Suc.IH)
qed

lemma trunc_safe_Unmarshal_rest: "trunc_safe Unmarshal_rest"
proof -
  show ?thesis
    unfolding Unmarshal_rest_def [abs_def]
    by (intro trunc_safe_bind trunc_safe_read_u8 trunc_safe_read_u16 trunc_safe_read_u32
        trunc_safe_read_u64 trunc_safe_read_str16 trunc_safe_read_payload
        trunc_safe_read_headers trunc_safe_return)
qed



lemma Unmarshal_blank: "Unmarshal (b # blank_body) = Inr (blank_record b)"
  by (simp add: Unmarshal_def Unmarshal_rest_def blank_body_def blank_record_def read_str16_def
      read_u16_def read_u32_def read_u64_def read_payload_def read_bytes_def Uint16_def
      Uint32_def Uint64_def time_UnixMilli_def string_of_def)

lemma Unmarshal_rest_truncated:
  assumes "Unmarshal_rest data = Some (r, rest)" and "n < length data - length rest"
  shows "Unmarshal (take n data) = Inl ErrInvalidRecord"
proof -
  from trunc_safe_Unmarshal_rest assms(1) obtain c where
    c: "data = c @ rest" "\<And>k. k < length c \<Longrightarrow> Unmarshal_rest (take k c) = None"
    unfolding trunc_safe_def by blast
  have "n < length c" using assms(2) c(1) by simp
  then show ?thesis using c by (simp add: Unmarshal_def)
qed

lemma Unmarshal_type_byte:
  "Unmarshal data = Inr r \<Longrightarrow> data \<noteq> [] \<and> rType r = hd data"
  by (auto simp: Unmarshal_def Unmarshal_rest_def read_u8_def bind_eq_Some_conv
      split: option.splits if_splits)

lemma Marshal_truncated:
  assumes "fields_fit r" and "n < length (Marshal r)"
  shows "Unmarshal (take n (Marshal r)) = Inl ErrInvalidRecord"
  using Unmarshal_rest_truncated [of "Marshal r" _ "[]" n] Unmarshal_rest_Marshal [OF assms(1), of "[]"]
    assms(2) by simp

text \<open>The value of the type byte has no influence on the parse.\<close>

lemma Unmarshal_rest_type_byte:
  "Unmarshal_rest (b' # body)
     = map_option (\<lambda>(r, rest). (r\<lparr>rType := b'\<rparr>, rest)) (Unmarshal_rest (b # body))"
  by (auto simp: Unmarshal_rest_def split: Option.bind_splits)

lemma Unmarshal_other_type_byte:
  "Unmarshal (b # body) = Inr r \<Longrightarrow> Unmarshal (b' # body) = Inr (r\<lparr>rType := b'\<rparr>)"
  "Unmarshal (b # body) = Inl e \<Longrightarrow> Unmarshal (b' # body) = Inl e"
  using Unmarshal_rest_type_byte [of b' body b]
  by (auto simp: Unmarshal_def split: option.splits)

lemma Marshal_type_byte: "Marshal r = rType r # tl (Marshal r)"
  by (simp add: Marshal_def)

lemma Marshal_tl_type: "tl (Marshal (r\<lparr>rType := b\<rparr>)) = tl (Marshal r)"
  by (simp add: Marshal_def)

lemma fields_fit_type [simp]: "fields_fit (r\<lparr>rType := b\<rparr>) = fields_fit r"
  by (simp add: fields_fit_def)

section \<open>Reading frames\<close>

declare replay_segment.simps [simp del]

lemma Read_frame:
  assumes "fields_fit r" and "eta_fits (rETA r)" and "length (Marshal r) < 4294967296"
  shows "Read crc (frame crc r @ rest) = Inr (r, rest)"
proof -
  have u: "unat (word_of_nat (length (Marshal r)) :: 32 word) = length (Marshal r)"
    using assms(3) by (simp add: unat_of_nat)
  have a: "ReadFull 4 (frame crc r @ rest)
        = Inr (PutUint32 (word_of_nat (length (Marshal r))), PutUint32 (crc (Marshal r)) @ Marshal r @ rest)"
    by (simp add: ReadFull_def frame_def Let_def)
  have b: "ReadFull 4 (PutUint32 (crc (Marshal r)) @ Marshal r @ rest)
        = Inr (PutUint32 (crc (Marshal r)), Marshal r @ rest)"
    by (simp add: ReadFull_def)
  have c: "ReadFull (length (Marshal r)) (Marshal r @ rest) = Inr (Marshal r, rest)"
    by (simp add: ReadFull_def)
  have d: "Uint32 (PutUint32 w) = w" for w using Uint32_Put [of w "[]"] by simp
  show ?thesis
    by (simp add: Read_def a b c d u VerifyChecksum_def Unmarshal_Marshal_general [OF assms(1)]
        time_UnixMilli_inverse [OF assms(2)])
qed

lemma Read_torn_length:
  "Read crc [5, 0, 0] = Inl (Wrapped ''failed to read length'' ErrUnexpectedEOF)"
  by (simp add: Read_def ReadFull_def)

lemma sample_frame_ok:
  "eta_fits (rETA (sample_record ty ''q'' jid 0))"
  "length jid < 100 \<Longrightarrow> fields_fit (sample_record ty ''q'' jid 0)"
  "length jid < 100 \<Longrightarrow> length (Marshal (sample_record ty ''q'' jid 0)) < 4294967296"
  by (simp_all add: eta_fits_def sample_record_def fields_fit_def headers_ok_def Marshal_def
      put_str16_def put_headers_def)

lemma Read_empty: "Read crc [] = Inl EOF"
  by (simp add: Read_def ReadFull_def)

lemma ack_frame_ok:
  "eta_fits (rETA (ack_record ''q'' ''j1'' ''L''))"
  "fields_fit (ack_record ''q'' ''j1'' ''L'')"
  "length (Marshal (ack_record ''q'' ''j1'' ''L'')) < 4294967296"
  by (simp_all add: eta_fits_def ack_record_def fields_fit_def headers_ok_def Marshal_def
      put_str16_def put_headers_def zeroTime_def)

lemma segments_wal_of_two:
  "length (frame crc r1) < 1024 \<Longrightarrow>
   segments (wal_of_two crc r1 r2) = [frame crc r1 @ frame crc r2]"
  by (simp add: wal_of_two_def WAL_Write_def newWAL_def IsFull_def createSegment_def
      Segment_Write_def segments_def Let_def)

lemma length_sample_frame: "length (frame crc (sample_record ty ''q'' ''j1'' 0)) < 1024"
  by (simp add: frame_def Let_def Marshal_def sample_record_def put_str16_def put_headers_def)

lemma RecordType_distinct:
  "RecordTypeEnqueue \<noteq> RecordTypeAck" "RecordTypeAck \<noteq> RecordTypeEnqueue"
  by (simp_all add: RecordTypeEnqueue_def RecordTypeAck_def)

text \<open>
  What does hold of \<open>Replay\<close>: a frame that is present in full but fails its checksum
  ends the segment quietly (the rest of it, here a further good frame, is skipped) and the
  next segment is replayed; an error of the callback ends the whole replay.
\<close>

lemma Read_bad_checksum:
  assumes "length data < 4294967296" and "c \<noteq> crc data"
  shows "Read crc (PutUint32 (word_of_nat (length data)) @ PutUint32 c @ data @ rest)
           = Inl ErrCorruptedData"
proof -
  have u: "unat (word_of_nat (length data) :: 32 word) = length data"
    using assms(1) by (simp add: unat_of_nat)
  have a: "ReadFull 4 (PutUint32 (word_of_nat (length data)) @ PutUint32 c @ data @ rest)
        = Inr (PutUint32 (word_of_nat (length data)), PutUint32 c @ data @ rest)"
    by (simp add: ReadFull_def)
  have b: "ReadFull 4 (PutUint32 c @ data @ rest) = Inr (PutUint32 c, data @ rest)"
    by (simp add: ReadFull_def)
  have c: "ReadFull (length data) (data @ rest) = Inr (data, rest)"
    by (simp add: ReadFull_def)
  have d: "Uint32 (PutUint32 w) = w" for w using Uint32_Put [of w "[]"] by simp
  show ?thesis using assms(2)
    by (auto simp add: Read_def a b c d u VerifyChecksum_def)
qed

lemma Replay_bad_checksum_continues:
  "Replay crc collect
     [frame crc (sample_record 1 ''q'' ''j1'' 0)
        @ PutUint32 3 @ PutUint32 (crc [1, 2, 3] + 1) @ [1, 2, 3]
        @ frame crc (sample_record 1 ''q'' ''j3'' 0),
      frame crc (sample_record 1 ''q'' ''j2'' 0)] []
   = (None, [sample_record 1 ''q'' ''j1'' 0, sample_record 1 ''q'' ''j2'' 0])"
proof -
  define bad where "bad = PutUint32 3 @ PutUint32 (crc [1, 2, 3] + 1) @ [1, 2, 3]
        @ frame crc (sample_record 1 ''q'' ''j3'' 0)"
  have r1: "Read crc (frame crc (sample_record 1 ''q'' ''j1'' 0) @ bad)
              = Inr (sample_record 1 ''q'' ''j1'' 0, bad)"
    by (rule Read_frame) (simp_all add: sample_frame_ok)
  have r2: "Read crc bad = Inl ErrCorruptedData"
    unfolding bad_def using Read_bad_checksum [of "[1, 2, 3]" "crc [1, 2, 3] + 1" crc] by simp
  have r3: "Read crc (frame crc (sample_record 1 ''q'' ''j2'' 0) @ [])
              = Inr (sample_record 1 ''q'' ''j2'' 0, [])"
    by (rule Read_frame) (simp_all add: sample_frame_ok)
  have s0: "replay_segment crc collect bad [sample_record 1 ''q'' ''j1'' 0]
              = (None, [sample_record 1 ''q'' ''j1'' 0])"
    by (subst replay_segment.simps) (simp add: r2)
  have s1: "replay_segment crc collect (frame crc (sample_record 1 ''q'' ''j1'' 0) @ bad) []
              = (None, [sample_record 1 ''q'' ''j1'' 0])"
    by (subst replay_segment.simps) (simp add: r1 collect_def s0)
  have s3: "replay_segment crc collect [] [sample_record 1 ''q'' ''j1'' 0, sample_record 1 ''q'' ''j2'' 0]
              = (None, [sample_record 1 ''q'' ''j1'' 0, sample_record 1 ''q'' ''j2'' 0])"
    by (subst replay_segment.simps) (simp add: Read_empty)
  have s2: "replay_segment crc collect (frame crc (sample_record 1 ''q'' ''j2'' 0))
              [sample_record 1 ''q'' ''j1'' 0]
              = (None, [sample_record 1 ''q'' ''j1'' 0, sample_record 1 ''q'' ''j2'' 0])"
    using r3 by (subst replay_segment.simps) (simp add: collect_def s3)
  have "Replay crc collect [frame crc (sample_record 1 ''q'' ''j1'' 0) @ bad,
      frame crc (sample_record 1 ''q'' ''j2'' 0)] []
      = (None, [sample_record 1 ''q'' ''j1'' 0, sample_record 1 ''q'' ''j2'' 0])"
    using s1 s2 by simp
  then show ?thesis by (simp add: bad_def)
qed

lemma Replay_callback_error_aborts:
  "Replay crc (\<lambda>r st. (Some e, st))
     (frame crc (sample_record 1 ''q'' ''j1'' 0) # segs) st
   = (Some (Wrapped ''callback failed'' e), st)"
proof -
  have r1: "Read crc (frame crc (sample_record 1 ''q'' ''j1'' 0) @ [])
              = Inr (sample_record 1 ''q'' ''j1'' 0, [])"
    by (rule Read_frame) (simp_all add: sample_frame_ok)
  have "replay_segment crc (\<lambda>r st. (Some e, st)) (frame crc (sample_record 1 ''q'' ''j1'' 0)) st
          = (Some (Wrapped ''callback failed'' e), st)"
    using r1 by (subst replay_segment.simps) simp
  then show ?thesis by simp
qed

text \<open>A frame cut short inside its checksum or inside its data is a read error as well.\<close>

lemma Read_torn_checksum:
  "Read crc (PutUint32 n @ [7, 7]) = Inl (Wrapped ''failed to read checksum'' ErrUnexpectedEOF)"
  by (simp add: Read_def ReadFull_def)

lemma Read_torn_data:
  "Read crc (PutUint32 10 @ PutUint32 c @ [1, 2, 3])
     = Inl (Wrapped ''failed to read data'' ErrUnexpectedEOF)"
proof -
  have "Uint32 (PutUint32 10) = 10" using Uint32_Put [of 10 "[]"] by simp
  then show ?thesis by (simp add: Read_def ReadFull_def)
qed

section \<open>Enqueue and the priority argument\<close>










section \<open>The preference order (C5)\<close>





section \<open>Popping the next deliverable job (C4)\<close>

text \<open>
  C4 (the code departs from the specification): \<open>PopReady\<close> inspects only the top of the heap. With
  a priority 9 job scheduled for time 100 and a priority 1 job scheduled for time 10 in the
  structure, at time 50 the second job is deliverable, yet \<open>PopReady\<close> returns nothing and
  leaves the structure as it was.
\<close>

theorem PopReady_blocked_by_delayed_top:
  "PopReady (Push (Push newPriorityQueue (sample_job ''a'' 9 100 1)) (sample_job ''b'' 1 10 2)) 50
     = (None, Push (Push newPriorityQueue (sample_job ''a'' 9 100 1)) (sample_job ''b'' 1 10 2))
   \<and> IsReady (sample_job ''b'' 1 10 2) 50
   \<and> sample_job ''b'' 1 10 2
        \<in> set (map job (heap (Push (Push newPriorityQueue (sample_job ''a'' 9 100 1))
                                 (sample_job ''b'' 1 10 2))))"
  by (simp add: PopReady_def Push_def newPriorityQueue_def heap_Push_def Len_def sample_job_def
      Less_def job_less_def Swap_def IsReady_def IsZero_def zeroTime_def up.simps)

section \<open>Unique job ids in the ready structure (C10)\<close>

text \<open>
  C10: after every run of \<open>Push\<close>, \<open>Pop\<close>, \<open>PopReady\<close> and \<open>Remove\<close> from the empty
  structure, no two heap entries carry the same job id, the registered ids are exactly the
  ids in the heap, and pushing a job whose id is already present returns the structure
  unchanged, with the same length.
\<close>

theorem Push_existing_id_noop:
  "distinct (ids (heap (run_ops ops)))
   \<and> items (run_ops ops) = set (ids (heap (run_ops ops)))
   \<and> (ID j \<in> set (ids (heap (run_ops ops)))
        \<longrightarrow> Push (run_ops ops) j = run_ops ops \<and> Len (Push (run_ops ops) j) = Len (run_ops ops))"
  using pq_inv_run_ops [of ops] by (auto simp: pq_inv_def Push_def)

theorem Push_existing_id_noop_witness:
  "ID (sample_job ''a'' 9 0 0)
     \<in> set (ids (heap (run_ops [OpPush (sample_job ''a'' 5 10 20), OpPush (sample_job ''b'' 7 10 20)])))
   \<and> Push (run_ops [OpPush (sample_job ''a'' 5 10 20), OpPush (sample_job ''b'' 7 10 20)])
        (sample_job ''a'' 9 0 0)
      = run_ops [OpPush (sample_job ''a'' 5 10 20), OpPush (sample_job ''b'' 7 10 20)]"
proof -
  let ?ops = "[OpPush (sample_job ''a'' 5 10 20), OpPush (sample_job ''b'' 7 10 20)]"
  have "ID (sample_job ''a'' 9 0 0) \<in> items (run_ops ?ops)"
    by (simp add: run_ops_def Push_def newPriorityQueue_def sample_job_def)
  with Push_existing_id_noop [of ?ops "sample_job ''a'' 9 0 0"] show ?thesis by simp
qed

section \<open>Round trip of the record codec (C6)\<close>

text \<open>
  C6 (as stated, refuted): the layout stores the scheduled time in whole milliseconds. A
  record scheduled one nanosecond after the epoch does not come back from
  \<open>Unmarshal (Marshal r)\<close>.
\<close>

theorem Unmarshal_Marshal_counterexample:
  "Unmarshal (Marshal (sample_record 1 ''q'' ''j1'' 1)) \<noteq> Inr (sample_record 1 ''q'' ''j1'' 1)"
proof -
  have "time_UnixMilli (UnixMilli 1) = 0"
    by (simp add: time_UnixMilli_def UnixMilli_def)
  then have "Unmarshal (Marshal (sample_record 1 ''q'' ''j1'' 1))
               = Inr ((sample_record 1 ''q'' ''j1'' 1)\<lparr>rETA := 0\<rparr>)"
    using Unmarshal_Marshal_general [OF fields_fit_sample, of 1 1]
    by (simp add: sample_record_def)
  then show ?thesis by (simp add: sample_record_def)
qed

text \<open>
  C6 (amended): for every record whose queue name, job id, lease token, reason and header
  keys and values are shorter than \<open>2^16\<close> bytes, that has fewer than \<open>2^16\<close> headers
  and a payload shorter than \<open>2^32\<close> bytes, and whose scheduled time is a whole number of
  milliseconds within the \<open>int64\<close> range, \<open>Unmarshal (Marshal r)\<close> succeeds and yields
  \<open>r\<close>, for every record type, priority, attempt count and attempt limit.
\<close>

theorem Unmarshal_Marshal:
  "fields_fit r \<Longrightarrow> eta_fits (rETA r) \<Longrightarrow> Unmarshal (Marshal r) = Inr r"
  by (simp add: Unmarshal_Marshal_general time_UnixMilli_inverse)

theorem Unmarshal_Marshal_witness:
  "fields_fit (sample_record 3 ''q'' ''j1'' 5000000)
   \<and> eta_fits (rETA (sample_record 3 ''q'' ''j1'' 5000000))
   \<and> Unmarshal (Marshal (sample_record 3 ''q'' ''j1'' 5000000))
       = Inr (sample_record 3 ''q'' ''j1'' 5000000)"
proof -
  have e: "eta_fits (rETA (sample_record 3 ''q'' ''j1'' 5000000))"
    by (simp add: eta_fits_def sample_record_def)
  from Unmarshal_Marshal [OF fields_fit_sample e] fields_fit_sample e show ?thesis by blast
qed


section \<open>Truncation and the type byte (C7)\<close>

text \<open>
  C7 (as stated, refuted): \<open>Unmarshal\<close> does not look at the value of the type byte. An
  input that starts with the byte 9, which is none of the five record types, followed by a
  well-formed body parses successfully into a record of type 9.
\<close>

theorem Unmarshal_unknown_type_counterexample:
  "Unmarshal (9 # blank_body) = Inr (blank_record 9)"
  by (rule Unmarshal_blank)

text \<open>
  C7 (amended): record parsing fails with \<open>ErrInvalidRecord\<close> on every truncated input,
  that is on the empty input, on every proper prefix of the bytes that a successful parse
  consumes, and so on every proper prefix of the encoding of a record that fits the layout.
  The leading type byte is not validated: a successful parse returns it as the record type
  whatever its value; replacing the type byte of an input by any other byte value leaves
  the outcome as it was (the same error, or the same record with the new type); so the
  encoding of every record that fits the layout parses successfully under every type byte,
  known or not.
\<close>

theorem Unmarshal_truncated:
  "Unmarshal [] = Inl ErrInvalidRecord
   \<and> (Unmarshal_rest data = Some (r, rest) \<and> n < length data - length rest
        \<longrightarrow> Unmarshal (take n data) = Inl ErrInvalidRecord)
   \<and> (fields_fit r' \<and> k < length (Marshal r')
        \<longrightarrow> Unmarshal (take k (Marshal r')) = Inl ErrInvalidRecord)
   \<and> (Unmarshal data = Inr r \<longrightarrow> data \<noteq> [] \<and> rType r = hd data)
   \<and> Unmarshal (b # blank_body) = Inr (blank_record b)
   \<and> (Unmarshal (b1 # body) = Inr r2 \<longrightarrow> Unmarshal (b # body) = Inr (r2\<lparr>rType := b\<rparr>))
   \<and> (Unmarshal (b1 # body) = Inl e \<longrightarrow> Unmarshal (b # body) = Inl e)
   \<and> (fields_fit r' \<and> eta_fits (rETA r')
        \<longrightarrow> Unmarshal (b # tl (Marshal r')) = Inr (r'\<lparr>rType := b\<rparr>))"
proof -
  have e: "Unmarshal [] = Inl ErrInvalidRecord"
    by (simp add: Unmarshal_def Unmarshal_rest_def read_u8_def)
  have t: "Unmarshal (b # tl (Marshal r')) = Inr (r'\<lparr>rType := b\<rparr>)"
    if "fields_fit r'" and "eta_fits (rETA r')"
  proof -
    have "Unmarshal (rType r' # tl (Marshal r')) = Inr r'"
      using that Unmarshal_Marshal_general [of r'] Marshal_type_byte [of r']
      by (simp add: time_UnixMilli_inverse)
    then show ?thesis by (rule Unmarshal_other_type_byte(1))
  qed
  show ?thesis
    using e Unmarshal_rest_truncated [of data r rest n] Marshal_truncated [of r' k]
      Unmarshal_type_byte [of data r] Unmarshal_blank [of b]
      Unmarshal_other_type_byte(1) [of b1 body r2 b] Unmarshal_other_type_byte(2) [of b1 body e b] t
    by blast
qed

theorem Unmarshal_truncated_witness:
  "fields_fit (sample_record 1 ''q'' ''j1'' 0)
   \<and> eta_fits (rETA (sample_record 1 ''q'' ''j1'' 0))
   \<and> 20 < length (Marshal (sample_record 1 ''q'' ''j1'' 0))
   \<and> Unmarshal (take 20 (Marshal (sample_record 1 ''q'' ''j1'' 0))) = Inl ErrInvalidRecord
   \<and> Unmarshal (9 # tl (Marshal (sample_record 1 ''q'' ''j1'' 0)))
       = Inr (sample_record 9 ''q'' ''j1'' 0)
   \<and> Unmarshal (1 # blank_body) = Inr (blank_record 1)
   \<and> 1 # blank_body \<noteq> [] \<and> rType (blank_record 1) = hd (1 # blank_body)
   \<and> Unmarshal (200 # blank_body) = Inr (blank_record 200)
   \<and> Unmarshal [1] = Inl ErrInvalidRecord
   \<and> Unmarshal [200] = Inl ErrInvalidRecord
   \<and> Unmarshal_rest (1 # blank_body) = Some (blank_record 1, [])
   \<and> 31 < length (1 # blank_body) - length ([] :: byte list)
   \<and> Unmarshal (take 31 (1 # blank_body)) = Inl ErrInvalidRecord"
proof -
  let ?r = "sample_record 1 ''q'' ''j1'' 0"
  have len: "20 < length (Marshal ?r)"
    by (simp add: Marshal_def sample_record_def put_str16_def put_headers_def)
  have eta: "eta_fits (rETA ?r)" by (rule sample_frame_ok(1))
  have ok: "Unmarshal (1 # blank_body) = Inr (blank_record 1)" by (rule Unmarshal_blank)
  have short: "Unmarshal [1] = Inl ErrInvalidRecord"
    by (simp add: Unmarshal_def Unmarshal_rest_def read_u8_def read_str16_def read_u16_def)
  have rest: "Unmarshal_rest (1 # blank_body) = Some (blank_record 1, [])"
    by (simp add: Unmarshal_rest_def blank_body_def blank_record_def read_str16_def
      read_u16_def read_u32_def read_u64_def read_payload_def read_bytes_def Uint16_def
      Uint32_def Uint64_def time_UnixMilli_def string_of_def)
  have l2: "31 < length (1 # blank_body) - length ([] :: byte list)"
    by (simp add: blank_body_def)
  have upd: "(sample_record 1 ''q'' ''j1'' 0)\<lparr>rType := 9\<rparr> = sample_record 9 ''q'' ''j1'' 0"
    "(blank_record 1)\<lparr>rType := 200\<rparr> = blank_record 200"
    by (simp_all add: sample_record_def blank_record_def)
  note T1 = Unmarshal_truncated [of "1 # blank_body" "blank_record 1" "[]" 31 ?r 20 9
      1 blank_body "blank_record 1" ErrInvalidRecord]
  note T2 = Unmarshal_truncated [of "1 # blank_body" "blank_record 1" "[]" 31 ?r 20 200
      1 blank_body "blank_record 1" ErrInvalidRecord]
  note T3 = Unmarshal_truncated [of "1 # blank_body" "blank_record 1" "[]" 31 ?r 20 200
      1 "[]" "blank_record 1" ErrInvalidRecord]
  from T1 fields_fit_sample [of 1 0] eta len ok rest l2
  have a: "Unmarshal (take 20 (Marshal ?r)) = Inl ErrInvalidRecord"
    "Unmarshal (9 # tl (Marshal ?r)) = Inr (sample_record 9 ''q'' ''j1'' 0)"
    "Unmarshal (take 31 (1 # blank_body)) = Inl ErrInvalidRecord"
    "rType (blank_record 1) = hd (1 # blank_body)"
    by (simp_all add: upd)
  from T2 ok have b: "Unmarshal (200 # blank_body) = Inr (blank_record 200)"
    by (simp add: upd)
  from T3 short have c: "Unmarshal [200] = Inl ErrInvalidRecord" by simp
  from a b c fields_fit_sample [of 1 0] eta len ok rest l2 short show ?thesis by simp
qed

section \<open>Replay over a torn segment tail (C8)\<close>

text \<open>
  C8 (the code departs from the specification): the first segment holds one complete frame followed
  by a torn frame, three bytes of a length prefix; the second segment holds a complete
  frame. \<open>Replay\<close> delivers the first record and then returns the read error, so the
  replay is aborted and the second segment is never read. Only a checksum mismatch on a
  frame that is present in full (\<open>ErrCorruptedData\<close>) ends a segment quietly; a frame cut
  short inside its length, checksum or data surfaces as a wrapped read error, which
  \<open>Replay\<close> returns.
\<close>

theorem Replay_torn_tail_aborts:
  "Replay crc collect
     [frame crc (sample_record 1 ''q'' ''j1'' 0) @ [5, 0, 0],
      frame crc (sample_record 1 ''q'' ''j2'' 0)] []
   = (Some (Wrapped ''failed to read from segment''
             (Wrapped ''failed to read length'' ErrUnexpectedEOF)),
      [sample_record 1 ''q'' ''j1'' 0])"
proof -
  have r1: "Read crc (frame crc (sample_record 1 ''q'' ''j1'' 0) @ [5, 0, 0])
              = Inr (sample_record 1 ''q'' ''j1'' 0, [5, 0, 0])"
    by (rule Read_frame) (simp_all add: sample_frame_ok)
  have "replay_segment crc collect [5, 0, 0] [sample_record 1 ''q'' ''j1'' 0]
          = (Some (Wrapped ''failed to read from segment''
                    (Wrapped ''failed to read length'' ErrUnexpectedEOF)),
             [sample_record 1 ''q'' ''j1'' 0])"
    by (subst replay_segment.simps) (simp add: Read_torn_length)
  then have "replay_segment crc collect
          (frame crc (sample_record 1 ''q'' ''j1'' 0) @ [5, 0, 0]) []
          = (Some (Wrapped ''failed to read from segment''
                    (Wrapped ''failed to read length'' ErrUnexpectedEOF)),
             [sample_record 1 ''q'' ''j1'' 0])"
    by (subst replay_segment.simps) (simp add: r1 collect_def)
  then show ?thesis by simp
qed

section \<open>Replay of an acknowledged job (C1)\<close>

text \<open>
  C1 (the code departs from the specification): a WAL that holds the \<open>ENQUEUE\<close> record of job
  \<open>j1\<close> in queue \<open>q\<close> followed by the \<open>ACK\<close> record of the same job is replayed
  into an empty manager. The \<open>ACK\<close> case of the replay callback deletes the job id from
  the in-flight map only, and replay never puts a job there (a lease writes no record), so
  after the replay the job is still in the ready structure of \<open>q\<close>.
\<close>

theorem replay_keeps_acked_job:
  "replayWAL crc now
     (NewManager (wal_of_two crc (sample_record RecordTypeEnqueue ''q'' ''j1'' 0)
                    (ack_record ''q'' ''j1'' ''L'')))
   = (None,
      \<lparr>queues =
         [(''q'',
           \<lparr>qname = ''q'',
             ready = \<lparr>heap = [\<lparr>job = (sample_job ''j1'' 5 0 now)\<lparr>Payload := [1, 2, 3],
                                      Headers := [(''k'', ''v'')]\<rparr>, index = 0\<rparr>],
                      items = {''j1''}\<rparr>,
             inflight = [], dlq = []\<rparr>)],
       wal = wal_of_two crc (sample_record RecordTypeEnqueue ''q'' ''j1'' 0)
               (ack_record ''q'' ''j1'' ''L''),
       idempotency = []\<rparr>)"
proof -
  let ?enq = "sample_record RecordTypeEnqueue ''q'' ''j1'' 0"
  let ?ack = "ack_record ''q'' ''j1'' ''L''"
  let ?W = "wal_of_two crc ?enq ?ack"
  let ?m = "\<lparr>queues =
         [(''q'',
           \<lparr>qname = ''q'',
             ready = \<lparr>heap = [\<lparr>job = (sample_job ''j1'' 5 0 now)\<lparr>Payload := [1, 2, 3],
                                      Headers := [(''k'', ''v'')]\<rparr>, index = 0\<rparr>],
                      items = {''j1''}\<rparr>,
             inflight = [], dlq = []\<rparr>)],
       wal = ?W, idempotency = []\<rparr>"
  have r1: "Read crc (frame crc ?enq @ frame crc ?ack) = Inr (?enq, frame crc ?ack)"
    by (rule Read_frame) (simp_all add: sample_frame_ok)
  have r2: "Read crc (frame crc ?ack) = Inr (?ack, [])"
    using Read_frame [OF ack_frame_ok(2) ack_frame_ok(1) ack_frame_ok(3), of crc "[]"] by simp
  have m1: "replayCallback now ?enq (NewManager ?W) = (None, ?m)"
    by (simp add: replayCallback_def NewManager_def sample_record_def getOrCreateQueue_def
        putQueue_def newQueue_def Push_def newPriorityQueue_def heap_Push_def up.simps
        sample_job_def)
  have m2: "replayCallback now ?ack ?m = (None, ?m)"
    by (simp add: replayCallback_def ack_record_def RecordType_distinct getQueue_def
        putQueue_def)
  have s3: "replay_segment crc (replayCallback now) [] ?m = (None, ?m)"
    by (subst replay_segment.simps) (simp add: Read_empty)
  have s2: "replay_segment crc (replayCallback now) (frame crc ?ack) ?m = (None, ?m)"
    by (subst replay_segment.simps) (simp add: r2 m2 s3)
  have s1: "replay_segment crc (replayCallback now) (frame crc ?enq @ frame crc ?ack)
              (NewManager ?W) = (None, ?m)"
    by (subst replay_segment.simps) (simp add: r1 m1 s2)
  have w: "wal (NewManager ?W) = ?W" by (simp add: NewManager_def)
  show ?thesis
    unfolding replayWAL_def w segments_wal_of_two [OF length_sample_frame]
    by (simp add: s1)
qed


section \<open>Nack at the attempt limit (C2)\<close>

text \<open>
  C2 (the code departs from the specification): a leased job with one attempt so far and an attempt
  limit of two is nacked with its lease token, and the WAL write succeeds. The incremented
  attempt count is 2, which does not exceed the limit, yet \<open>ShouldRetry\<close> tests
  \<open>Tries < MaxRetries\<close> and the job is moved to the dead-letter map with status
  \<open>JobStatusDLQ\<close>; the ready structure stays empty.
\<close>

theorem Nack_dead_at_limit:
  "fst (Nack crc True now backoff (one_leased 1 2 1000) ''j1'' ''L'' ''failed'') = None
   \<and> getQueue (snd (Nack crc True now backoff (one_leased 1 2 1000) ''j1'' ''L'' ''failed'')) ''q''
       = Some \<lparr>qname = ''q'', ready = newPriorityQueue, inflight = [],
               dlq = [(''j1'', (leased_job 2 2 zeroTime)\<lparr>ETA := now + backoff 2, LeaseID := [],
                                  Status := JobStatusDLQ\<rparr>)]\<rparr>"
  by (simp add: Nack_def one_leased_def leased_job_def ShouldRetry_def WAL_Write_def
      putQueue_def getQueue_def Let_def)

section \<open>The lease reclaimer and the WAL (C3)\<close>

text \<open>
  C3 (the code departs from the specification): the reclaimer finds one lease that expired at time
  10 when it runs at time 50. With an attempt limit of one the job is moved to the
  dead-letter map and the WAL is left exactly as it was, whether or not writes would
  succeed: that branch writes no record. With an attempt limit of three and a WAL whose
  write fails, the job is moved to the ready structure all the same: the move comes before
  the write and the result of the write is discarded.
\<close>

theorem reclaimer_moves_without_wal:
  "checkLeaseTimeouts crc io_ok 50 backoff (one_leased 0 1 10)
     = \<lparr>queues = [(''q'', \<lparr>qname = ''q'', ready = newPriorityQueue, inflight = [],
                   dlq = [(''j1'', (leased_job 1 1 zeroTime)\<lparr>ETA := 50 + backoff 1, LeaseID := [],
                                      Status := JobStatusDLQ\<rparr>)]\<rparr>)],
        wal = newWAL 1024, idempotency = []\<rparr>
   \<and> checkLeaseTimeouts crc False 50 backoff (one_leased 0 3 10)
     = \<lparr>queues = [(''q'', \<lparr>qname = ''q'',
                   ready = \<lparr>heap = [\<lparr>job = (leased_job 1 3 zeroTime)\<lparr>ETA := 50 + backoff 1,
                                        LeaseID := [], Status := JobStatusReady\<rparr>, index = 0\<rparr>],
                            items = {''j1''}\<rparr>,
                   inflight = [], dlq = []\<rparr>)],
        wal = newWAL 1024, idempotency = []\<rparr>"
  by (simp add: checkLeaseTimeouts_def checkQueue_def reclaim_def one_leased_def leased_job_def
      lease_expired_def IsZero_def zeroTime_def ShouldRetry_def WAL_Write_def putQueue_def
      Let_def Push_def newPriorityQueue_def heap_Push_def up.simps)

section \<open>Enqueue and the priority range (C9)\<close>




end
